theory Spec2Isabelle
  imports Main "HOL-Library.Sublist"
begin

section \<open>Python strings\<close>

text \<open>
  A Python \<^verbatim>\<open>str\<close> is a sequence of Unicode code points, so it is modelled as a list of
  natural numbers; \<open>str\<close> turns an Isabelle string literal into one.
\<close>

type_synonym pystr = "nat list"

definition str :: "string \<Rightarrow> pystr" where
  "str s = map of_char s"

text \<open>
  \<^verbatim>\<open>str.isspace\<close> on one code point; the same set of characters is what \<^verbatim>\<open>str.strip()\<close>,
  \<^verbatim>\<open>str.split()\<close> and the pattern \<^verbatim>\<open>\s\<close> of \<^verbatim>\<open>re\<close> treat as whitespace.
\<close>

definition isspace :: "nat \<Rightarrow> bool" where
  "isspace c \<longleftrightarrow>
     (9 \<le> c \<and> c \<le> 13) \<or> (28 \<le> c \<and> c \<le> 32) \<or> c = 133 \<or> c = 160 \<or> c = 5760 \<or>
     (8192 \<le> c \<and> c \<le> 8202) \<or> c = 8232 \<or> c = 8233 \<or> c = 8239 \<or> c = 8287 \<or> c = 12288"

text \<open>\<^verbatim>\<open>char in string.printable\<close>: digits, ASCII letters, punctuation and \<^verbatim>\<open>" \t\n\r\x0b\x0c"\<close>.\<close>

definition printable :: "nat \<Rightarrow> bool" where
  "printable c \<longleftrightarrow> (32 \<le> c \<and> c \<le> 126) \<or> (9 \<le> c \<and> c \<le> 13)"

text \<open>\<^verbatim>\<open>s.strip()\<close>\<close>

definition strip :: "pystr \<Rightarrow> pystr" where
  "strip s = rev (dropWhile isspace (rev (dropWhile isspace s)))"

text \<open>
  \<^verbatim>\<open>s.split()\<close>: the maximal runs of non-whitespace characters. The first argument of
  \<open>split_ws\<close> is the word read so far.
\<close>

fun split_ws :: "pystr \<Rightarrow> pystr \<Rightarrow> pystr list" where
  "split_ws w [] = (if w = [] then [] else [w])"
| "split_ws w (c # cs) =
     (if isspace c then (if w = [] then split_ws [] cs else w # split_ws [] cs)
      else split_ws (w @ [c]) cs)"

definition str_split :: "pystr \<Rightarrow> pystr list" where
  "str_split s = split_ws [] s"

text \<open>\<^verbatim>\<open>" ".join(xs)\<close>\<close>

fun join :: "pystr list \<Rightarrow> pystr" where
  "join [] = []"
| "join [x] = x"
| "join (x # y # ys) = x @ [32] @ join (y # ys)"

text \<open>
  \<^verbatim>\<open>re.sub(r'\s+', ' ', text)\<close>: every maximal run of whitespace becomes one blank. The flag
  says that the previous character was whitespace (the match is still running).
\<close>

fun sub_spaces :: "bool \<Rightarrow> pystr \<Rightarrow> pystr" where
  "sub_spaces in_run [] = []"
| "sub_spaces in_run (c # cs) =
     (if isspace c then (if in_run then sub_spaces True cs else 32 # sub_spaces True cs)
      else c # sub_spaces False cs)"

text \<open>
  \<^verbatim>\<open>re.split(r'[.!?]+\s+', text)\<close>. A match is a maximal run of the characters \<^verbatim>\<open>.!?\<close> that is
  followed by whitespace, together with the maximal run of whitespace after it. \<open>cur\<close> is
  the piece read so far, \<open>pend\<close> a run of \<^verbatim>\<open>.!?\<close> not yet known to be followed by whitespace,
  and \<open>sp\<close> says that the scan is inside the whitespace of a match.
\<close>

definition is_terminator :: "nat \<Rightarrow> bool" where
  "is_terminator c \<longleftrightarrow> c = 46 \<or> c = 33 \<or> c = 63"

fun re_split :: "pystr \<Rightarrow> pystr \<Rightarrow> bool \<Rightarrow> pystr \<Rightarrow> pystr list" where
  "re_split cur pend sp [] = [cur @ pend]"
| "re_split cur pend sp (c # cs) =
     (if is_terminator c then re_split cur (pend @ [c]) False cs
      else if isspace c then
        (if pend \<noteq> [] then cur # re_split [] [] True cs
         else if sp then re_split cur [] True cs
         else re_split (cur @ [c]) [] False cs)
      else re_split (cur @ pend @ [c]) [] False cs)"

text \<open>\<^verbatim>\<open>tokens[-n:]\<close> for an integer \<open>n\<close>: the slice from index \<open>-n\<close> to the end.\<close>

definition slice_from :: "int \<Rightarrow> 'a list \<Rightarrow> 'a list" where
  "slice_from i xs =
     (if i < 0 then drop (length xs - nat (- i)) xs else drop (nat i) xs)"

text \<open>The decimal digits of a number, as an f-string prints it.\<close>

fun str_of_nat :: "nat \<Rightarrow> pystr" where
  "str_of_nat n = (if n < 10 then [48 + n] else str_of_nat (n div 10) @ [48 + n mod 10])"

declare str_of_nat.simps [simp del]

section \<open>Exceptions and numbers\<close>

text \<open>The exceptions of the program; \<open>Exception\<close> stands for one that a library raises.\<close>

datatype error =
  RuntimeError string
| ValueError string
| AttributeError string
| TypeError string
| OverflowError string
| Exception string

text \<open>
  \<^verbatim>\<open>int(n * 0.1)\<close> for an integer \<open>n\<close>, as Python computes it. The integer is converted to a
  double, rounded to 53 bits, to the nearest and to even on a tie; the conversion raises
  \<^verbatim>\<open>OverflowError\<close> when the double would be \<open>2 ^ 1024\<close> or more. The double \<^verbatim>\<open>0.1\<close> is
  \<open>3602879701896397 / 2 ^ 55\<close>; the product is rounded to 53 bits in the same way, and \<^verbatim>\<open>int\<close>
  drops its fraction. \<open>bit_length\<close> is the number of binary digits of a number,
  \<open>round_half_even a s\<close> is \<open>a / 2 ^ s\<close> rounded to an integer, and \<open>round53 a\<close> is \<open>a\<close> rounded
  to 53 bits.
\<close>

fun bit_length :: "nat \<Rightarrow> nat" where
  "bit_length n = (if n = 0 then 0 else Suc (bit_length (n div 2)))"

declare bit_length.simps [simp del]

definition round_half_even :: "nat \<Rightarrow> nat \<Rightarrow> nat" where
  "round_half_even a s =
     (let q = a div 2 ^ s; r = a mod 2 ^ s
      in if 2 * r < 2 ^ s then q
         else if 2 ^ s < 2 * r then q + 1
         else if even q then q else q + 1)"

definition round53 :: "nat \<Rightarrow> nat" where
  "round53 a = (let s = bit_length a - 53 in round_half_even a s * 2 ^ s)"

definition int_tenth :: "int \<Rightarrow> error + int" where
  "int_tenth n =
     (let x = round53 (nat \<bar>n\<bar>) in
      if 2 ^ 1024 \<le> x then Inl (OverflowError ''int too large to convert to float'')
      else
        let p = round53 (x * 3602879701896397) div 2 ^ 55
        in Inr (if 0 \<le> n then int p else - int p))"

section \<open>The libraries the program calls\<close>

text \<open>
  The program calls \<^verbatim>\<open>html.unescape\<close>, \<^verbatim>\<open>HTMLParser.feed\<close>, \<^verbatim>\<open>unicodedata.normalize\<close>,
  \<^verbatim>\<open>nltk.sent_tokenize\<close> and \<^verbatim>\<open>nltk.word_tokenize\<close>. They are not code of the repository and
  are parameters of the model. \<open>parser_feed\<close> gives the pieces of text that \<^verbatim>\<open>feed\<close> passes to
  \<^verbatim>\<open>handle_data\<close>, in order; \<open>None\<close> is a call that raises.
\<close>

record py_lib =
  html_unescape :: "pystr \<Rightarrow> pystr"
  parser_feed :: "pystr \<Rightarrow> pystr list option"
  normalize_NFKD :: "pystr \<Rightarrow> pystr"
  sent_tokenize :: "pystr \<Rightarrow> pystr list option"
  word_tokenize :: "pystr \<Rightarrow> pystr list option"

text \<open>
  A \<^verbatim>\<open>tiktoken\<close> encoding. \<^verbatim>\<open>encode\<close> raises \<^verbatim>\<open>ValueError\<close> on a text that holds a special token
  such as \<^verbatim>\<open><|endoftext|>\<close>; \<open>None\<close> is that call. \<^verbatim>\<open>decode\<close> returns on every list of tokens.
\<close>

record tiktoken =
  encode :: "pystr \<Rightarrow> nat list option"
  decode :: "nat list \<Rightarrow> pystr"

section \<open>services/html\_stripper.py\<close>

record MLStripper =
  fed :: "pystr list"

definition MLStripper_init :: MLStripper where
  "MLStripper_init = \<lparr>fed = []\<rparr>"

definition handle_data :: "MLStripper \<Rightarrow> pystr \<Rightarrow> MLStripper" where
  "handle_data self d = self\<lparr>fed := fed self @ [d]\<rparr>"

definition get_data :: "MLStripper \<Rightarrow> pystr" where
  "get_data self = concat (fed self)"

definition strip_tags :: "py_lib \<Rightarrow> pystr \<Rightarrow> pystr option" where
  "strip_tags lib text =
     (case parser_feed lib text of
        None \<Rightarrow> None
      | Some ds \<Rightarrow> Some (get_data (foldl handle_data MLStripper_init ds)))"

definition clean_text_advanced :: "py_lib \<Rightarrow> pystr \<Rightarrow> pystr option" where
  "clean_text_advanced lib text =
     (if text = [] then Some text
      else
        case strip_tags lib (html_unescape lib text) of
          None \<Rightarrow> None
        | Some stripped \<Rightarrow>
            Some (strip (sub_spaces False (filter printable (normalize_NFKD lib stripped)))))"

section \<open>services/chunking.py\<close>

text \<open>The module's globals \<^verbatim>\<open>encoding\<close> and \<^verbatim>\<open>is_initialized\<close>.\<close>

record globals =
  encoding :: "tiktoken option"
  is_initialized :: bool

definition module_start :: globals where
  "module_start = \<lparr>encoding = None, is_initialized = False\<rparr>"

text \<open>
  \<^verbatim>\<open>initialize_chunking_service\<close>. The NLTK download is recovered from inside and leaves
  the globals alone; \<open>got\<close> is what \<^verbatim>\<open>get_encoding("cl100k_base")\<close> returns, \<open>None\<close> when it
  raises, and then the exception is raised again.
\<close>

definition initialize_chunking_service :: "tiktoken option \<Rightarrow> globals \<Rightarrow> error + globals" where
  "initialize_chunking_service got g =
     (if is_initialized g then Inr g
      else
        case got of
          None \<Rightarrow> Inl (Exception ''get_encoding'')
        | Some enc \<Rightarrow> Inr (g\<lparr>encoding := Some enc, is_initialized := True\<rparr>))"

definition num_tokens :: "globals \<Rightarrow> pystr \<Rightarrow> error + nat" where
  "num_tokens g text =
     (if \<not> is_initialized g then Inl (RuntimeError ''Chunking service not initialized'')
      else
        case encoding g of
          None \<Rightarrow> Inl (AttributeError ''encode'')
        | Some enc \<Rightarrow>
            (case encode enc text of
               None \<Rightarrow> Inl (ValueError ''disallowed special token'')
             | Some tokens \<Rightarrow> Inr (length tokens)))"

text \<open>
  The chunker. The limit and the overlap are what the request holds: an integer or
  \<^verbatim>\<open>None\<close>. Arithmetic and comparison on \<^verbatim>\<open>None\<close> raise \<^verbatim>\<open>TypeError\<close>.
\<close>

record SmartChunker =
  chunk_limit :: "int option"
  overlap :: "int option"

definition SmartChunker_init ::
  "globals \<Rightarrow> int option \<Rightarrow> int option \<Rightarrow> error + SmartChunker" where
  "SmartChunker_init g chunk_token_limit overlap_tokens =
     (if \<not> is_initialized g then
        Inl (RuntimeError
          ''Chunking service not initialized. Call initialize_chunking_service() first.'')
      else Inr \<lparr>chunk_limit = chunk_token_limit, overlap = overlap_tokens\<rparr>)"

text \<open>
  \<^verbatim>\<open>_add_to_chunks\<close>. The lists \<^verbatim>\<open>chunks\<close> and \<^verbatim>\<open>current_chunk\<close> are mutated in place by the
  source; the model takes them as arguments and returns the new pair.
\<close>

definition add_to_chunks ::
  "globals \<Rightarrow> SmartChunker \<Rightarrow> pystr \<Rightarrow> pystr list \<Rightarrow> pystr list \<Rightarrow>
   error + pystr list \<times> pystr list" where
  "add_to_chunks g self sentence chunks current_chunk =
     (let test_chunk = current_chunk @ [sentence] in
      case num_tokens g (join test_chunk) of
        Inl e \<Rightarrow> Inl e
      | Inr test_tokens \<Rightarrow>
          (case chunk_limit self of
             None \<Rightarrow> Inl (TypeError ''> not supported between int and NoneType'')
           | Some limit \<Rightarrow>
               if int test_tokens > limit then
                 (let chunks' = chunks @ [join current_chunk];
                      flat_chunk = join current_chunk
                  in case encoding g of
                       None \<Rightarrow> Inl (AttributeError ''encode'')
                     | Some enc \<Rightarrow>
                         (case encode enc flat_chunk of
                            None \<Rightarrow> Inl (ValueError ''disallowed special token'')
                          | Some tokens \<Rightarrow>
                              (case overlap self of
                                 None \<Rightarrow> Inl (TypeError ''bad operand type for unary -'')
                               | Some n \<Rightarrow>
                                   (let overlap_token_ids = slice_from (- n) tokens;
                                        overlap_text = decode enc overlap_token_ids
                                    in Inr (chunks', [strip overlap_text, sentence])))))
               else Inr (chunks, current_chunk @ [sentence])))"

text \<open>\<^verbatim>\<open>_simple_sentence_split\<close>\<close>

definition simple_sentence_split :: "pystr \<Rightarrow> pystr list" where
  "simple_sentence_split text =
     map strip (filter (\<lambda>s. strip s \<noteq> []) (re_split [] [] False text))"

text \<open>The word loop of \<^verbatim>\<open>_split_long_sentence\<close>, on the pair \<^verbatim>\<open>(word_chunks, current_words)\<close>.\<close>

fun word_loop ::
  "globals \<Rightarrow> SmartChunker \<Rightarrow> pystr list \<Rightarrow> pystr list \<times> pystr list \<Rightarrow>
   error + pystr list \<times> pystr list" where
  "word_loop g self [] st = Inr st"
| "word_loop g self (word # ws) (word_chunks, current_words) =
     (let test_words = current_words @ [word];
          test_text = join test_words
      in case num_tokens g test_text of
           Inl e \<Rightarrow> Inl e
         | Inr n \<Rightarrow>
             (case chunk_limit self of
                None \<Rightarrow> Inl (TypeError ''> not supported between int and NoneType'')
              | Some limit \<Rightarrow>
                  if int n > limit \<and> current_words \<noteq> [] then
                    word_loop g self ws (word_chunks @ [join current_words], [word])
                  else word_loop g self ws (word_chunks, current_words @ [word])))"

text \<open>The words of a sentence: \<^verbatim>\<open>nltk.word_tokenize\<close>, and \<^verbatim>\<open>sentence.split()\<close> when it raises.\<close>

definition words_of :: "py_lib \<Rightarrow> pystr \<Rightarrow> pystr list" where
  "words_of lib sentence =
     (case word_tokenize lib sentence of None \<Rightarrow> str_split sentence | Some ws \<Rightarrow> ws)"

definition split_long_sentence ::
  "globals \<Rightarrow> py_lib \<Rightarrow> SmartChunker \<Rightarrow> pystr \<Rightarrow> error + pystr list" where
  "split_long_sentence g lib self sentence =
     (let words = words_of lib sentence in
      if length words \<le> 1 then Inr [sentence]
      else
        case word_loop g self words ([], []) of
          Inl e \<Rightarrow> Inl e
        | Inr (word_chunks, current_words) \<Rightarrow>
            let word_chunks' =
                  (if current_words \<noteq> [] then word_chunks @ [join current_words]
                   else word_chunks)
            in Inr (if word_chunks' \<noteq> [] then word_chunks' else [sentence]))"

text \<open>The loop of \<^verbatim>\<open>split\<close> over the fragments of a long sentence.\<close>

fun subchunk_loop ::
  "globals \<Rightarrow> SmartChunker \<Rightarrow> pystr list \<Rightarrow> pystr list \<times> pystr list \<Rightarrow>
   error + pystr list \<times> pystr list" where
  "subchunk_loop g self [] st = Inr st"
| "subchunk_loop g self (sub # subs) (chunks, current_chunk) =
     (if strip sub = [] then subchunk_loop g self subs (chunks, current_chunk)
      else
        case num_tokens g sub of
          Inl e \<Rightarrow> Inl e
        | Inr sub_tokens \<Rightarrow>
            (case chunk_limit self of
               None \<Rightarrow> Inl (TypeError ''<= not supported between int and NoneType'')
             | Some limit \<Rightarrow>
                 if int sub_tokens \<le> limit then
                   (case add_to_chunks g self (strip sub) chunks current_chunk of
                      Inl e \<Rightarrow> Inl e
                    | Inr st' \<Rightarrow> subchunk_loop g self subs st')
                 else
                   subchunk_loop g self subs
                     ((if current_chunk \<noteq> [] then chunks @ [join current_chunk] else chunks)
                        @ [strip sub], [])))"

text \<open>
  The body of the sentence loop of \<^verbatim>\<open>split\<close>, for one sentence. The threshold
  \<^verbatim>\<open>self.chunk_limit + int(self.chunk_limit * 0.1)\<close> is computed after the tokens of the
  sentence are counted.
\<close>

definition split_step ::
  "globals \<Rightarrow> py_lib \<Rightarrow> SmartChunker \<Rightarrow> pystr \<Rightarrow> pystr list \<times> pystr list \<Rightarrow>
   error + pystr list \<times> pystr list" where
  "split_step g lib self sentence0 st =
     (let sentence = strip sentence0 in
      if sentence = [] then Inr st
      else
        case num_tokens g sentence of
          Inl e \<Rightarrow> Inl e
        | Inr sentence_tokens \<Rightarrow>
            (case chunk_limit self of
               None \<Rightarrow> Inl (TypeError ''unsupported operand type(s) for *: NoneType and float'')
             | Some limit \<Rightarrow>
                 (case int_tenth limit of
                    Inl e \<Rightarrow> Inl e
                  | Inr tenth \<Rightarrow>
                      (let chunk_limit_with_buffer = limit + tenth in
                       if int sentence_tokens > chunk_limit_with_buffer then
                         (case split_long_sentence g lib self sentence of
                            Inl e \<Rightarrow> Inl e
                          | Inr subchunks \<Rightarrow> subchunk_loop g self subchunks st)
                       else add_to_chunks g self sentence (fst st) (snd st)))))"

fun sentence_loop ::
  "globals \<Rightarrow> py_lib \<Rightarrow> SmartChunker \<Rightarrow> pystr list \<Rightarrow> pystr list \<times> pystr list \<Rightarrow>
   error + pystr list \<times> pystr list" where
  "sentence_loop g lib self [] st = Inr st"
| "sentence_loop g lib self (sentence # rest) st =
     (case split_step g lib self sentence st of
        Inl e \<Rightarrow> Inl e
      | Inr st' \<Rightarrow> sentence_loop g lib self rest st')"

text \<open>
  The sentences \<^verbatim>\<open>split\<close> works on. An exception of \<^verbatim>\<open>clean_text_advanced\<close> leaves \<^verbatim>\<open>text\<close>
  as it was given; an exception of \<^verbatim>\<open>nltk.sent_tokenize\<close> comes after \<^verbatim>\<open>text\<close> was cleaned.
\<close>

definition sentences_of :: "py_lib \<Rightarrow> pystr \<Rightarrow> pystr list" where
  "sentences_of lib text =
     (case clean_text_advanced lib text of
        None \<Rightarrow> simple_sentence_split text
      | Some cleaned \<Rightarrow>
          (case sent_tokenize lib cleaned of
             None \<Rightarrow> simple_sentence_split cleaned
           | Some sentences \<Rightarrow> sentences))"

text \<open>\<^verbatim>\<open>SmartChunker.split\<close>\<close>

definition SmartChunker_split ::
  "globals \<Rightarrow> py_lib \<Rightarrow> SmartChunker \<Rightarrow> pystr \<Rightarrow> error + pystr list" where
  "SmartChunker_split g lib self text =
     (case sentence_loop g lib self (sentences_of lib text) ([], []) of
        Inl e \<Rightarrow> Inl e
      | Inr (chunks, current_chunk) \<Rightarrow>
          Inr (if current_chunk \<noteq> [] then chunks @ [join current_chunk] else chunks))"

section \<open>routers/chunking.py\<close>

text \<open>
  The request and the response of \<^verbatim>\<open>_chunk_text\<close>. The field \<^verbatim>\<open>text\<close> of the request is
  \<open>request_text\<close> here and the field \<^verbatim>\<open>chunks\<close> of the response is \<open>response_chunks\<close>. The limit
  and the overlap are \<^verbatim>\<open>Optional[int]\<close>: an integer or \<^verbatim>\<open>None\<close>; a request that leaves them
  out has the defaults 200 and 50.
\<close>

record ChunkRequest =
  request_text :: pystr
  chunk_token_limit :: "int option"
  overlap_tokens :: "int option"

record ChunkResponse =
  status :: pystr
  message :: pystr
  response_chunks :: "pystr list"
  total_chunks :: nat
  total_tokens :: nat

text \<open>\<^verbatim>\<open>sum(num_tokens(chunk) for chunk in chunks)\<close>\<close>

fun sum_tokens :: "globals \<Rightarrow> pystr list \<Rightarrow> error + nat" where
  "sum_tokens g [] = Inr 0"
| "sum_tokens g (chunk # rest) =
     (case num_tokens g chunk of
        Inl e \<Rightarrow> Inl e
      | Inr n \<Rightarrow> (case sum_tokens g rest of Inl e \<Rightarrow> Inl e | Inr m \<Rightarrow> Inr (n + m)))"

text \<open>\<^verbatim>\<open>_chunk_text\<close>\<close>

definition chunk_text :: "globals \<Rightarrow> py_lib \<Rightarrow> ChunkRequest \<Rightarrow> error + ChunkResponse" where
  "chunk_text g lib request =
     (if request_text request = [] \<or> strip (request_text request) = [] then
        Inl (ValueError ''Text content cannot be empty'')
      else
        case SmartChunker_init g (chunk_token_limit request) (overlap_tokens request) of
          Inl e \<Rightarrow> Inl e
        | Inr chunker \<Rightarrow>
            (case SmartChunker_split g lib chunker (request_text request) of
               Inl e \<Rightarrow> Inl e
             | Inr chunks \<Rightarrow>
                 (case sum_tokens g chunks of
                    Inl e \<Rightarrow> Inl e
                  | Inr token_sum \<Rightarrow>
                      Inr \<lparr>status = str ''success'',
                           message = str ''Text successfully chunked into '' @
                             str_of_nat (length chunks) @ str '' chunks'',
                           response_chunks = chunks,
                           total_chunks = length chunks,
                           total_tokens = token_sum\<rparr>)))"

section \<open>Concrete libraries and a concrete tokenizer\<close>

text \<open>
  The theorems below hold for every library and every tokenizer. To run the program on
  concrete texts, the parameters are set as follows.

  \<^item> \<open>unescape_basic\<close> replaces the entities \<^verbatim>\<open>&amp;\<close>, \<^verbatim>\<open>&lt;\<close> and \<^verbatim>\<open>&gt;\<close>, as
    \<^verbatim>\<open>html.unescape\<close> does, and leaves every other character alone.
  \<^item> \<open>feed_basic\<close> drops what stands between \<^verbatim>\<open><\<close> and \<^verbatim>\<open>>\<close> and passes each run of text
    between two tags on, with its entities replaced (the parser's \<^verbatim>\<open>convert_charrefs\<close>); this
    is what \<^verbatim>\<open>HTMLParser.feed\<close> does on tags of the form \<^verbatim>\<open><name>\<close> and on text whose
    entities are complete.
  \<^item> NFKD is the identity, as it is on ASCII and on characters with no decomposition.
  \<^item> Both NLTK tokenizers raise, as they do when the NLTK data is missing, so that the
    program runs its own fallbacks \<^verbatim>\<open>_simple_sentence_split\<close> and \<^verbatim>\<open>sentence.split()\<close>.
\<close>

fun unescape_basic :: "pystr \<Rightarrow> pystr" where
  "unescape_basic [] = []"
| "unescape_basic (c # cs) =
     (if c = 38 \<and> take 4 cs = str ''amp;'' then 38 # drop 4 (unescape_basic cs)
      else if c = 38 \<and> take 3 cs = str ''lt;'' then 60 # drop 3 (unescape_basic cs)
      else if c = 38 \<and> take 3 cs = str ''gt;'' then 62 # drop 3 (unescape_basic cs)
      else c # unescape_basic cs)"

fun feed_basic :: "bool \<Rightarrow> pystr \<Rightarrow> pystr \<Rightarrow> pystr list" where
  "feed_basic in_tag d [] = (if d = [] then [] else [unescape_basic d])"
| "feed_basic in_tag d (c # cs) =
     (if in_tag then feed_basic (c \<noteq> 62) [] cs
      else if c = 60 then (if d = [] then [] else [unescape_basic d]) @ feed_basic True [] cs
      else feed_basic False (d @ [c]) cs)"

definition lib_without_nltk :: py_lib where
  "lib_without_nltk =
     \<lparr>html_unescape = unescape_basic,
      parser_feed = (\<lambda>t. Some (feed_basic False [] t)),
      normalize_NFKD = (\<lambda>t. t),
      sent_tokenize = (\<lambda>t. None),
      word_tokenize = (\<lambda>t. None)\<rparr>"

text \<open>
  A second library, with NLTK at work on a text that holds no punctuation: the whole text
  is one sentence, and the words of a sentence are its whitespace-separated words.
\<close>

definition lib_with_nltk :: py_lib where
  "lib_with_nltk =
     \<lparr>html_unescape = unescape_basic,
      parser_feed = (\<lambda>t. Some (feed_basic False [] t)),
      normalize_NFKD = (\<lambda>t. t),
      sent_tokenize = (\<lambda>t. Some (if t = [] then [] else [t])),
      word_tokenize = (\<lambda>t. Some (str_split t))\<rparr>"

text \<open>
  A tokenizer with one token for each character, and one token for a blank together with
  the character after it. On a text of single ASCII letters separated by single blanks
  this is how \<^verbatim>\<open>cl100k_base\<close> cuts the text: \<^verbatim>\<open>"a b c"\<close> is the three tokens \<^verbatim>\<open>"a"\<close>, \<^verbatim>\<open>" b"\<close>,
  \<^verbatim>\<open>" c"\<close>. The token of a blank and a character \<open>c\<close> is numbered \<open>c + 2000000\<close>.
\<close>

fun letter_encode :: "pystr \<Rightarrow> nat list" where
  "letter_encode [] = []"
| "letter_encode [c] = [c]"
| "letter_encode (c # d # cs) =
     (if c = 32 \<and> d \<noteq> 32 then (d + 2000000) # letter_encode cs
      else c # letter_encode (d # cs))"

fun letter_decode :: "nat list \<Rightarrow> pystr" where
  "letter_decode [] = []"
| "letter_decode (t # ts) =
     (if 2000000 \<le> t then 32 # (t - 2000000) # letter_decode ts else t # letter_decode ts)"

definition letter_tokens :: tiktoken where
  "letter_tokens = \<lparr>encode = (\<lambda>t. Some (letter_encode t)), decode = letter_decode\<rparr>"

text \<open>The globals after \<^verbatim>\<open>initialize_chunking_service\<close> has run with this tokenizer.\<close>

definition ready :: globals where
  "ready = \<lparr>encoding = Some letter_tokens, is_initialized = True\<rparr>"

section \<open>The words a sentence carries\<close>

text \<open>
  A sentence takes the word-level path of \<^verbatim>\<open>split\<close> when its trimmed text is not empty and
  has more tokens than \<^verbatim>\<open>chunk_limit_with_buffer\<close>.
\<close>

definition takes_word_path :: "globals \<Rightarrow> SmartChunker \<Rightarrow> pystr \<Rightarrow> bool" where
  "takes_word_path g self s =
     (strip s \<noteq> [] \<and>
      (case num_tokens g (strip s) of
         Inl e \<Rightarrow> False
       | Inr n \<Rightarrow>
           (case chunk_limit self of
              None \<Rightarrow> False
            | Some limit \<Rightarrow>
                (case int_tenth limit of
                   Inl e \<Rightarrow> False
                 | Inr tenth \<Rightarrow> limit + tenth < int n))))"

text \<open>
  The words a sentence hands to the chunks: its own whitespace-separated words, or, when
  it takes the word-level path and is cut there into at least two words, the words of its
  word segmentation. With the fallback \<^verbatim>\<open>sentence.split()\<close> the two are the same list.
\<close>

definition carries ::
  "globals \<Rightarrow> py_lib \<Rightarrow> SmartChunker \<Rightarrow> pystr \<Rightarrow> pystr list \<Rightarrow> bool" where
  "carries g lib self s ws \<longleftrightarrow>
     ws = str_split s \<or>
     (takes_word_path g self s \<and> 2 \<le> length (words_of lib (strip s)) \<and>
      ws = concat (map str_split (words_of lib (strip s))))"



section \<open>What a chunk can be\<close>

text \<open>The last \<open>n\<close> token ids of a list, all of them when the list has fewer.\<close>

definition last_tokens :: "nat \<Rightarrow> nat list \<Rightarrow> nat list" where
  "last_tokens n tokens = drop (length tokens - n) tokens"

text \<open>
  The fragments that \<^verbatim>\<open>_split_long_sentence\<close> returns for the sentences of a text that take
  the word-level path.
\<close>

definition fragments_of :: "globals \<Rightarrow> py_lib \<Rightarrow> SmartChunker \<Rightarrow> pystr \<Rightarrow> pystr list" where
  "fragments_of g lib self text =
     concat (map (\<lambda>s. if takes_word_path g self s then
                         (case split_long_sentence g lib self (strip s) of
                            Inl e \<Rightarrow> []
                          | Inr subs \<Rightarrow> subs)
                       else [])
       (sentences_of lib text))"

text \<open>
  The chunk at index \<open>i\<close> is in order, for a set \<open>S\<close> of texts that may stand alone and a set
  \<open>U\<close> of units, when it is empty, or within the limit, or one of \<open>S\<close>, or made of two parts
  joined by a blank: the trimmed text of the last \<open>ov\<close> tokens of the chunk just before it,
  and one unit. The pair of \<^verbatim>\<open>chunks\<close> and \<^verbatim>\<open>current_chunk\<close> is in order when every chunk is
  and saving the buffer would give such a chunk.
\<close>

definition chunk_ok ::
  "(pystr \<Rightarrow> bool) \<Rightarrow> (pystr \<Rightarrow> bool) \<Rightarrow> globals \<Rightarrow> tiktoken \<Rightarrow> int \<Rightarrow> int \<Rightarrow>
   pystr list \<Rightarrow> nat \<Rightarrow> bool" where
  "chunk_ok S U g enc limit ov chunks i \<longleftrightarrow>
     chunks ! i = [] \<or>
     (\<exists>n. num_tokens g (chunks ! i) = Inr n \<and> int n \<le> limit) \<or>
     S (chunks ! i) \<or>
     (0 < i \<and>
      (\<exists>tokens u. encode enc (chunks ! (i - 1)) = Some tokens \<and> U u \<and>
         chunks ! i = join [strip (decode enc (last_tokens (nat ov) tokens)), u]))"

definition state_ok ::
  "(pystr \<Rightarrow> bool) \<Rightarrow> (pystr \<Rightarrow> bool) \<Rightarrow> globals \<Rightarrow> tiktoken \<Rightarrow> int \<Rightarrow> int \<Rightarrow>
   pystr list \<Rightarrow> pystr list \<Rightarrow> bool" where
  "state_ok S U g enc limit ov chunks current_chunk \<longleftrightarrow>
     (\<forall>i<length chunks. chunk_ok S U g enc limit ov chunks i) \<and>
     (current_chunk = [] \<or>
      (\<exists>n. num_tokens g (join current_chunk) = Inr n \<and> int n \<le> limit) \<or>
      (chunks \<noteq> [] \<and>
       (\<exists>tokens u. encode enc (last chunks) = Some tokens \<and> U u \<and>
          current_chunk = [strip (decode enc (last_tokens (nat ov) tokens)), u])))"

section \<open>Texts with tidy whitespace\<close>

text \<open>
  A text whose whitespace is tidy: every whitespace character is a blank, and no blank is
  followed by whitespace. This is what \<^verbatim>\<open>re.sub(r'\s+', ' ', text)\<close> returns and leaves as
  it is.
\<close>

fun tidy :: "pystr \<Rightarrow> bool" where
  "tidy [] \<longleftrightarrow> True"
| "tidy [c] \<longleftrightarrow> (isspace c \<longrightarrow> c = 32)"
| "tidy (c # d # cs) \<longleftrightarrow> (isspace c \<longrightarrow> c = 32 \<and> \<not> isspace d) \<and> tidy (d # cs)"

section \<open>Facts about strings\<close>

lemma isspace_32: "isspace 32"
  by (simp add: isspace_def)

lemma split_ws_space: "isspace c \<Longrightarrow> split_ws w (a @ c # b) = split_ws w a @ split_ws [] b"
  by (induction a arbitrary: w) auto

lemma str_split_join: "str_split (join xs) = concat (map str_split xs)"
proof (induction xs rule: join.induct)
  case (3 x y ys)
  have "str_split (join (x # y # ys)) = split_ws [] (x @ 32 # join (y # ys))"
    by (simp add: str_split_def)
  also have "\<dots> = split_ws [] x @ split_ws [] (join (y # ys))"
    by (rule split_ws_space) (rule isspace_32)
  finally show ?case using 3 by (simp add: str_split_def)
qed (simp_all add: str_split_def)

lemma split_ws_leading: "split_ws [] (dropWhile isspace s) = split_ws [] s"
  by (induction s) auto

lemma split_ws_all_space: "\<forall>c\<in>set t. isspace c \<Longrightarrow> split_ws w t = split_ws w []"
  by (induction t arbitrary: w) auto

lemma split_ws_trailing: "\<forall>c\<in>set t. isspace c \<Longrightarrow> split_ws w (s @ t) = split_ws w s"
proof (induction s arbitrary: w)
  case Nil
  then show ?case using split_ws_all_space by simp
next
  case (Cons a s)
  then show ?case by simp
qed

lemma drop_trailing: "rev (dropWhile P (rev v)) @ rev (takeWhile P (rev v)) = v"
  by (metis rev_append rev_rev_ident takeWhile_dropWhile_id)

lemma str_split_strip: "str_split (strip s) = str_split s"
proof -
  let ?v = "dropWhile isspace s"
  have "\<forall>c\<in>set (rev (takeWhile isspace (rev ?v))). isspace c"
    by (auto dest: set_takeWhileD)
  then have "split_ws [] (rev (dropWhile isspace (rev ?v)) @ rev (takeWhile isspace (rev ?v)))
      = split_ws [] (rev (dropWhile isspace (rev ?v)))"
    by (rule split_ws_trailing)
  then have "split_ws [] (strip s) = split_ws [] ?v"
    by (simp only: drop_trailing strip_def)
  then show ?thesis by (simp add: str_split_def split_ws_leading)
qed

lemma str_split_blank: "strip s = [] \<Longrightarrow> str_split s = []"
  using str_split_strip [of s] by (simp add: str_split_def)

lemma split_ws_word: "w \<noteq> [] \<Longrightarrow> split_ws w s \<noteq> []"
  by (induction s arbitrary: w) auto

lemma split_ws_nonspace: "\<exists>c\<in>set s. \<not> isspace c \<Longrightarrow> split_ws w s \<noteq> []"
  by (induction s arbitrary: w) (auto simp: split_ws_word)

lemma strip_nonblank: "strip s \<noteq> [] \<Longrightarrow> \<exists>c\<in>set s. \<not> isspace c"
  by (auto simp: strip_def dest: set_dropWhileD)

lemma str_split_nonblank: "strip s \<noteq> [] \<Longrightarrow> str_split s \<noteq> []"
  by (simp add: str_split_def split_ws_nonspace strip_nonblank)

lemma strip_strip: "strip (strip s) = strip s"
proof -
  let ?v = "dropWhile isspace s"
  let ?u = "rev (dropWhile isspace (rev ?v))"
  have u: "strip s = ?u" by (simp add: strip_def)
  have lead: "dropWhile isspace ?u = ?u"
  proof (cases "?u = []")
    case True
    show ?thesis unfolding True by simp
  next
    case False
    then have "?v \<noteq> []" by fastforce
    then have "\<not> isspace (hd ?v)" by (rule hd_dropWhile)
    moreover have "hd ?u = hd ?v"
      using False drop_trailing [of isspace ?v] by (metis hd_append2)
    ultimately have "\<not> isspace (hd ?u)" by simp
    then show ?thesis using False by (cases ?u) auto
  qed
  have trail: "dropWhile isspace (rev ?u) = rev ?u"
    by simp
  show ?thesis unfolding strip_def [of "strip s"] unfolding u lead trail by simp
qed

section \<open>The tenth of a limit\<close>

lemma bit_length_bound: "n < 2 ^ k \<Longrightarrow> bit_length n \<le> k"
proof (induction k arbitrary: n)
  case 0
  then show ?case by (simp add: bit_length.simps)
next
  case (Suc k)
  then have "n div 2 < 2 ^ k" by simp
  then have "bit_length (n div 2) \<le> k" by (rule Suc.IH)
  then show ?case by (subst bit_length.simps) simp
qed

lemma round_half_even_lower: "a div 2 ^ s \<le> round_half_even a s"
  by (simp add: round_half_even_def Let_def)

lemma round_half_even_upper: "round_half_even a s \<le> a div 2 ^ s + 1"
  by (simp add: round_half_even_def Let_def)

lemma round53_exact: "a < 2 ^ 53 \<Longrightarrow> round53 a = a"
proof -
  assume "a < 2 ^ 53"
  then have "bit_length a - 53 = 0" using bit_length_bound [of a 53] by simp
  then show ?thesis by (simp add: round53_def round_half_even_def)
qed

lemma multiple_below:
  fixes A B :: nat
  assumes "B \<le> A" and "2 ^ s dvd B"
  shows "B \<le> (A div 2 ^ s) * 2 ^ s"
proof -
  obtain k where k: "B = 2 ^ s * k" using assms(2) by (auto simp: dvd_def)
  have "B div 2 ^ s \<le> A div 2 ^ s" using assms(1) by (rule div_le_mono)
  then have "k \<le> A div 2 ^ s" using k by simp
  then have "k * 2 ^ s \<le> (A div 2 ^ s) * 2 ^ s" by simp
  then show ?thesis using k by (simp add: mult.commute)
qed

lemma tenth_of_small_nat:
  fixes n :: nat
  assumes "n < 2 ^ 46"
  shows "round53 (n * 3602879701896397) div 2 ^ 55 = n div 10"
proof -
  let ?A = "n * 3602879701896397"
  let ?s = "bit_length ?A - 53"
  let ?R = "round53 ?A"
  have n: "n < 70368744177664" using assms by simp
  have "?A < 2 ^ 98" using n by simp
  then have "bit_length ?A \<le> 98" by (rule bit_length_bound)
  then have s: "?s \<le> 45" by simp
  have "(2::nat) ^ ?s \<le> 2 ^ 45" by (rule power_increasing [OF s]) simp
  then have pow: "(2::nat) ^ ?s \<le> 35184372088832" by simp
  have R: "?R = round_half_even ?A ?s * 2 ^ ?s" by (simp add: round53_def Let_def)
  have split: "?A = (?A div 2 ^ ?s) * 2 ^ ?s + ?A mod 2 ^ ?s"
    by (rule div_mult_mod_eq [symmetric])
  have rem: "?A mod 2 ^ ?s < 2 ^ ?s" by simp
  have lowR: "(?A div 2 ^ ?s) * 2 ^ ?s \<le> ?R"
    unfolding R by (rule mult_le_mono1) (rule round_half_even_lower)
  have "?R \<le> (?A div 2 ^ ?s + 1) * 2 ^ ?s"
    unfolding R by (rule mult_le_mono1) (rule round_half_even_upper)
  then have "?R \<le> (?A div 2 ^ ?s) * 2 ^ ?s + 2 ^ ?s" by (simp add: algebra_simps)
  then have upR: "?R \<le> ?A + 35184372088832" using split pow by simp
  obtain q r where qr: "n = 10 * q + r" and r: "r < 10" and q: "q = n div 10"
    by (metis mod_less_divisor mult_div_mod_eq zero_less_numeral)
  have upper: "?R < (q + 1) * 2 ^ 55" using upR qr r n by simp
  have lower: "q * 2 ^ 55 \<le> ?R"
  proof (cases "r = 0")
    case True
    then have "q * 2 ^ 55 \<le> ?A" using qr by simp
    moreover have "(2::nat) ^ ?s dvd 2 ^ 55"
      by (rule le_imp_power_dvd) (use s in linarith)
    then have "(2::nat) ^ ?s dvd q * 2 ^ 55"
      by (rule dvd_mult)
    ultimately have "q * 2 ^ 55 \<le> (?A div 2 ^ ?s) * 2 ^ ?s" by (rule multiple_below)
    then show ?thesis using lowR by simp
  next
    case False
    have "?A < (?A div 2 ^ ?s) * 2 ^ ?s + 35184372088832" using split rem pow by linarith
    then have "?A < ?R + 35184372088832" using lowR by simp
    then show ?thesis using qr r False n by simp
  qed
  have "?R div 2 ^ 55 = q"
    using lower upper by (simp add: div_nat_eqI mult.commute)
  then show ?thesis using q by simp
qed

lemma int_tenth_small: "0 \<le> n \<Longrightarrow> n < 2 ^ 46 \<Longrightarrow> int_tenth n = Inr (n div 10)"
proof -
  assume n: "0 \<le> n" "n < 2 ^ 46"
  then have small: "nat n < 2 ^ 46" by (simp add: nat_less_iff)
  then have "nat n < 2 ^ 53" by simp
  then have x: "round53 (nat \<bar>n\<bar>) = nat n" using n by (simp add: round53_exact)
  have "(2::nat) ^ 46 \<le> 2 ^ 1024" by (rule power_increasing) simp_all
  then have ok: "\<not> (2::nat) ^ 1024 \<le> nat n" using small by simp
  have "int (nat n div 10) = n div 10" using n by (simp add: zdiv_int)
  then show ?thesis
    unfolding int_tenth_def Let_def x using ok n tenth_of_small_nat [OF small] by simp
qed

section \<open>Running the program on a concrete text\<close>

text \<open>The equations that unfold a run of the program on a concrete text.\<close>

lemmas run_defs = str_def strip_def isspace_def is_terminator_def printable_def str_split_def
  slice_from_def int_tenth_small simple_sentence_split_def sentences_of_def
  clean_text_advanced_def strip_tags_def get_data_def handle_data_def MLStripper_init_def
  num_tokens_def SmartChunker_init_def add_to_chunks_def words_of_def split_long_sentence_def
  split_step_def SmartChunker_split_def chunk_text_def lib_without_nltk_def lib_with_nltk_def
  letter_tokens_def ready_def module_start_def Let_def

lemma bit_length_lower: "0 < n \<Longrightarrow> 2 ^ (bit_length n - 1) \<le> n"
proof (induction n rule: bit_length.induct)
  case (1 n)
  show ?case
  proof (cases "n div 2 = 0")
    case True
    then have "bit_length n = 1" using "1.prems"
      by (simp add: bit_length.simps [of n] bit_length.simps [of 0])
    then show ?thesis using "1.prems" by simp
  next
    case False
    then have "2 ^ (bit_length (n div 2) - 1) \<le> n div 2"
      using "1.IH" "1.prems" by simp
    moreover have "0 < bit_length (n div 2)"
      using False by (simp add: bit_length.simps [of "n div 2"])
    moreover have "bit_length n = Suc (bit_length (n div 2))"
      using "1.prems" by (simp add: bit_length.simps [of n])
    ultimately have "2 * 2 ^ (bit_length n - 2) \<le> 2 * (n div 2)"
      by simp
    moreover have "(2::nat) * 2 ^ (bit_length n - 2) = 2 ^ (bit_length n - 1)"
      using \<open>0 < bit_length (n div 2)\<close> \<open>bit_length n = Suc (bit_length (n div 2))\<close>
      by (metis One_nat_def Suc_1 Suc_diff_Suc diff_Suc_1 diff_Suc_Suc power_Suc)
    ultimately show ?thesis by linarith
  qed
qed

lemma round53_large:
  assumes "2 ^ k \<le> a"
  shows "2 ^ k \<le> round53 a"
proof -
  let ?s = "bit_length a - 53"
  have R: "(a div 2 ^ ?s) * 2 ^ ?s \<le> round53 a"
    unfolding round53_def Let_def by (rule mult_le_mono1) (rule round_half_even_lower)
  show ?thesis
  proof (cases "?s \<le> k")
    case True
    then have "(2::nat) ^ ?s dvd 2 ^ k" by (rule le_imp_power_dvd)
    then have "2 ^ k \<le> (a div 2 ^ ?s) * 2 ^ ?s"
      using assms by (intro multiple_below)
    then show ?thesis using R by linarith
  next
    case False
    have "(0::nat) < 2 ^ k" by simp
    then have "0 < a" using assms by linarith
    then have "2 ^ (bit_length a - 1) \<le> a" by (rule bit_length_lower)
    moreover have "(2::nat) ^ ?s \<le> 2 ^ (bit_length a - 1)"
      by (rule power_increasing) simp_all
    ultimately have "2 ^ ?s \<le> a" by linarith
    then have "1 \<le> a div 2 ^ ?s" by (simp add: Suc_le_eq div_greater_zero_iff)
    then have "1 * 2 ^ ?s \<le> (a div 2 ^ ?s) * 2 ^ ?s" by (rule mult_le_mono1)
    moreover have "(2::nat) ^ k \<le> 2 ^ ?s"
      by (rule power_increasing) (use False in simp_all)
    ultimately show ?thesis using R by linarith
  qed
qed

lemma int_tenth_overflow:
  assumes "2 ^ 1024 \<le> \<bar>n\<bar>"
  shows "int_tenth n = Inl (OverflowError ''int too large to convert to float'')"
proof -
  have "int (2 ^ 1024) \<le> \<bar>n\<bar>" using assms by (simp only: of_nat_power of_nat_numeral)
  then have "2 ^ 1024 \<le> nat \<bar>n\<bar>" by (simp only: le_nat_iff abs_ge_zero)
  then have "2 ^ 1024 \<le> round53 (nat \<bar>n\<bar>)" by (rule round53_large)
  then show ?thesis unfolding int_tenth_def Let_def by (simp only: if_True)
qed

section \<open>What a call that returns has done\<close>

lemma num_tokens_Inr:
  assumes "num_tokens g t = Inr n"
  obtains enc toks where "is_initialized g" and "encoding g = Some enc"
    and "encode enc t = Some toks" and "n = length toks"
  using assms by (auto simp: num_tokens_def split: if_splits option.splits)

lemma num_tokens_ready:
  "is_initialized g \<Longrightarrow> encoding g = Some enc \<Longrightarrow> encode enc t = Some toks \<Longrightarrow>
     num_tokens g t = Inr (length toks)"
  by (simp add: num_tokens_def)

lemma add_to_chunks_Inr:
  assumes "add_to_chunks g self u chunks cur = Inr (chunks', cur')"
  obtains (keep) n limit where "num_tokens g (join (cur @ [u])) = Inr n"
      and "chunk_limit self = Some limit" and "int n \<le> limit"
      and "chunks' = chunks" and "cur' = cur @ [u]"
    | (flush) n limit enc toks ov where "num_tokens g (join (cur @ [u])) = Inr n"
      and "chunk_limit self = Some limit" and "limit < int n"
      and "encoding g = Some enc" and "encode enc (join cur) = Some toks"
      and "overlap self = Some ov"
      and "chunks' = chunks @ [join cur]"
      and "cur' = [strip (decode enc (slice_from (- ov) toks)), u]"
  using assms
  by (auto simp: add_to_chunks_def Let_def split: sum.splits option.splits if_splits)

lemma word_loop_Cons:
  assumes "word_loop g self (w # ws) (wc, cw) = Inr r"
  obtains (close) n limit where "num_tokens g (join (cw @ [w])) = Inr n"
      and "chunk_limit self = Some limit" and "limit < int n" and "cw \<noteq> []"
      and "word_loop g self ws (wc @ [join cw], [w]) = Inr r"
    | (extend) n limit where "num_tokens g (join (cw @ [w])) = Inr n"
      and "chunk_limit self = Some limit" and "int n \<le> limit \<or> cw = []"
      and "word_loop g self ws (wc, cw @ [w]) = Inr r"
  using assms
  by (auto simp: Let_def split: sum.splits option.splits if_splits)

lemma subchunk_loop_Cons:
  assumes "subchunk_loop g self (sub # subs) (chunks, cur) = Inr r"
  obtains (blank) "strip sub = []" and "subchunk_loop g self subs (chunks, cur) = Inr r"
    | (merge) n limit c1 k1 where "strip sub \<noteq> []" and "num_tokens g sub = Inr n"
      and "chunk_limit self = Some limit" and "int n \<le> limit"
      and "add_to_chunks g self (strip sub) chunks cur = Inr (c1, k1)"
      and "subchunk_loop g self subs (c1, k1) = Inr r"
    | (alone) n limit where "strip sub \<noteq> []" and "num_tokens g sub = Inr n"
      and "chunk_limit self = Some limit" and "limit < int n"
      and "subchunk_loop g self subs
             ((if cur \<noteq> [] then chunks @ [join cur] else chunks) @ [strip sub], []) = Inr r"
  using assms
  by (auto split: sum.splits option.splits if_splits)

lemma split_step_Inr:
  assumes "split_step g lib self s (chunks, cur) = Inr r"
  obtains (blank) "strip s = []" and "r = (chunks, cur)"
    | (merge) n limit tenth where "strip s \<noteq> []" and "num_tokens g (strip s) = Inr n"
      and "chunk_limit self = Some limit" and "int_tenth limit = Inr tenth"
      and "int n \<le> limit + tenth"
      and "add_to_chunks g self (strip s) chunks cur = Inr r"
    | (long) n limit tenth subs where "strip s \<noteq> []" and "num_tokens g (strip s) = Inr n"
      and "chunk_limit self = Some limit" and "int_tenth limit = Inr tenth"
      and "limit + tenth < int n"
      and "split_long_sentence g lib self (strip s) = Inr subs"
      and "subchunk_loop g self subs (chunks, cur) = Inr r"
  using assms
  by (auto simp: split_step_def Let_def split: sum.splits option.splits if_splits)

lemma sentence_loop_Cons:
  assumes "sentence_loop g lib self (s # ss) st = Inr r"
  obtains st1 where "split_step g lib self s st = Inr st1"
    and "sentence_loop g lib self ss st1 = Inr r"
  using assms by (auto split: sum.splits)

lemma word_loop_current:
  "word_loop g self ws (wc, cw) = Inr (wc', cw') \<Longrightarrow> ws \<noteq> [] \<or> cw \<noteq> [] \<Longrightarrow> cw' \<noteq> []"
proof (induction ws arbitrary: wc cw)
  case Nil
  then show ?case by simp
next
  case (Cons w ws)
  from Cons.prems(1) show ?case
    by (cases rule: word_loop_Cons) (use Cons.IH in blast)+
qed

lemma split_long_sentence_Inr:
  assumes "split_long_sentence g lib self s = Inr subs"
  obtains (whole) "length (words_of lib s) \<le> 1" and "subs = [s]"
    | (cut) wc cw where "2 \<le> length (words_of lib s)"
      and "word_loop g self (words_of lib s) ([], []) = Inr (wc, cw)"
      and "cw \<noteq> []" and "subs = wc @ [join cw]"
proof (cases "length (words_of lib s) \<le> 1")
  case True
  then show ?thesis using assms whole by (simp add: split_long_sentence_def Let_def)
next
  case False
  then obtain wc cw where l: "word_loop g self (words_of lib s) ([], []) = Inr (wc, cw)"
    using assms
    by (cases "word_loop g self (words_of lib s) ([], [])")
      (auto simp: split_long_sentence_def Let_def)
  have "words_of lib s \<noteq> []" using False by (cases "words_of lib s") simp_all
  then have cw: "cw \<noteq> []" using word_loop_current [OF l] by blast
  then have "subs = wc @ [join cw]"
    using assms False l by (simp add: split_long_sentence_def Let_def)
  then show ?thesis using cut False l cw by simp
qed

section \<open>Long-sentence splitting\<close>

lemma word_loop_bounded:
  assumes "word_loop g self ws (wc, cw) = Inr (wc', cw')"
    and "\<And>f. f \<in> set wc \<Longrightarrow> P f"
    and "cw = [] \<or> P (join cw)"
    and "\<And>w. w \<in> set ws \<Longrightarrow> P w"
    and "\<And>t n limit. num_tokens g t = Inr n \<Longrightarrow> chunk_limit self = Some limit \<Longrightarrow>
           int n \<le> limit \<Longrightarrow> P t"
  shows "(\<forall>f\<in>set wc'. P f) \<and> (cw' = [] \<or> P (join cw'))"
  using assms(1-4)
proof (induction ws arbitrary: wc cw)
  case Nil
  then show ?case by auto
next
  case (Cons w ws)
  from Cons.prems(1) show ?case
  proof (cases rule: word_loop_Cons)
    case (close n limit)
    have "\<And>f. f \<in> set (wc @ [join cw]) \<Longrightarrow> P f"
      using Cons.prems(2,3) close(4) by auto
    moreover have "[w] = [] \<or> P (join [w])" using Cons.prems(4) by simp
    ultimately show ?thesis using Cons.IH [OF close(5)] Cons.prems(4)
      by (meson list.set_intros(2))
  next
    case (extend n limit)
    have "P (join (cw @ [w]))"
    proof (cases "cw = []")
      case True
      then show ?thesis using Cons.prems(4) by simp
    next
      case False
      then have "int n \<le> limit" using extend(3) by simp
      then show ?thesis using assms(5) extend(1,2) by blast
    qed
    then have "cw @ [w] = [] \<or> P (join (cw @ [w]))" by simp
    then show ?thesis using Cons.IH [OF extend(4)] Cons.prems(2,4)
      by (meson list.set_intros(2))
  qed
qed

text \<open>
  Claim C10. When the word segmentation of a sentence has at least two words, every
  fragment that long-sentence splitting returns either has a token count of at most the
  chunk limit or is one single word of the segmentation: a word joins a group that is not
  empty only after the group with the word has passed the test against the limit.
\<close>

theorem long_sentence_fragments_bounded:
  assumes "split_long_sentence g lib self sentence = Inr fragments"
    and "2 \<le> length (words_of lib sentence)"
    and "f \<in> set fragments"
  shows "(\<exists>n limit. num_tokens g f = Inr n \<and> chunk_limit self = Some limit \<and> int n \<le> limit) \<or>
     f \<in> set (words_of lib sentence)"
proof -
  let ?P = "\<lambda>f. (\<exists>n limit. num_tokens g f = Inr n \<and> chunk_limit self = Some limit \<and> int n \<le> limit) \<or>
     f \<in> set (words_of lib sentence)"
  from assms(1) show ?thesis
  proof (cases rule: split_long_sentence_Inr)
    case whole
    then show ?thesis using assms(2) by simp
  next
    case (cut wc cw)
    have "(\<forall>f\<in>set wc. ?P f) \<and> (cw = [] \<or> ?P (join cw))"
      by (rule word_loop_bounded [OF cut(2), where P = ?P]) auto
    then show ?thesis using cut(3,4) assms(3) by auto
  qed
qed

theorem long_sentence_fragments_bounded_witness:
  "split_long_sentence ready lib_without_nltk \<lparr>chunk_limit = Some 3, overlap = Some 1\<rparr>
       (str ''a b c d e'')
     = Inr [str ''a b c'', str ''d e''] \<and>
   2 \<le> length (words_of lib_without_nltk (str ''a b c d e'')) \<and>
   str ''a b c'' \<in> set [str ''a b c'', str ''d e''] \<and>
   ((\<exists>n limit. num_tokens ready (str ''a b c'') = Inr n \<and>
       chunk_limit \<lparr>chunk_limit = Some 3, overlap = Some 1\<rparr> = Some limit \<and> int n \<le> limit) \<or>
    str ''a b c'' \<in> set (words_of lib_without_nltk (str ''a b c d e'')))"
proof -
  have run: "split_long_sentence ready lib_without_nltk \<lparr>chunk_limit = Some 3, overlap = Some 1\<rparr>
      (str ''a b c d e'') = Inr [str ''a b c'', str ''d e'']"
    by (simp add: run_defs)
  have two: "2 \<le> length (words_of lib_without_nltk (str ''a b c d e''))"
    by (simp add: run_defs)
  have mem: "str ''a b c'' \<in> set [str ''a b c'', str ''d e'']"
    by simp
  show ?thesis
    using long_sentence_fragments_bounded [OF run two mem] run two mem by simp
qed

section \<open>Initialization\<close>

text \<open>
  Claim C9. Before the service is initialized, counting tokens and constructing the
  chunker both fail with the error that says so, and the error reaches the caller of
  \<^verbatim>\<open>_chunk_text\<close>; neither returns a count or a chunk list.
\<close>

theorem uninitialized_is_reported:
  "\<not> is_initialized g \<Longrightarrow>
     num_tokens g t = Inl (RuntimeError ''Chunking service not initialized'') \<and>
     SmartChunker_init g limit ov = Inl (RuntimeError
       ''Chunking service not initialized. Call initialize_chunking_service() first.'') \<and>
     (if strip (request_text request) = [] then
        chunk_text g lib request = Inl (ValueError ''Text content cannot be empty'')
      else
        chunk_text g lib request = Inl (RuntimeError
          ''Chunking service not initialized. Call initialize_chunking_service() first.''))"
  by (auto simp: num_tokens_def SmartChunker_init_def chunk_text_def strip_def)

theorem uninitialized_is_reported_witness:
  "\<not> is_initialized module_start \<and>
   num_tokens module_start (str ''a b'') = Inl (RuntimeError ''Chunking service not initialized'') \<and>
   SmartChunker_init module_start (Some 100) (Some 20) = Inl (RuntimeError
     ''Chunking service not initialized. Call initialize_chunking_service() first.'') \<and>
   chunk_text module_start lib_without_nltk
     \<lparr>request_text = str ''a b'', chunk_token_limit = Some 100, overlap_tokens = Some 20\<rparr>
     = Inl (RuntimeError
         ''Chunking service not initialized. Call initialize_chunking_service() first.'')"
proof -
  have uninit: "\<not> is_initialized module_start"
    by (simp add: module_start_def)
  have nonblank: "strip (request_text
      \<lparr>request_text = str ''a b'', chunk_token_limit = Some 100, overlap_tokens = Some 20\<rparr>) \<noteq> []"
    by (simp add: strip_def str_def isspace_def)
  show ?thesis
    using uninitialized_is_reported [OF uninit, of "str ''a b''" "Some 100" "Some 20"
        "\<lparr>request_text = str ''a b'', chunk_token_limit = Some 100, overlap_tokens = Some 20\<rparr>"
        lib_without_nltk] uninit nonblank
    by simp
qed

section \<open>The threshold of long-sentence splitting\<close>

text \<open>
  Claim C8. Once its tokens are counted, a sentence goes to the word-level path exactly
  when the count is above the limit plus \<^verbatim>\<open>int(limit * 0.1)\<close>; otherwise the whole sentence
  goes to the merge step. For a positive limit below \<open>2 ^ 46\<close> that tenth is \<open>limit div 10\<close>,
  the floor of the tenth: a sentence of exactly \<open>limit\<close> tokens is never split, and one of
  \<open>limit + limit div 10 + 1\<close> tokens is.
\<close>

theorem long_sentence_threshold:
  "chunk_limit self = Some limit \<Longrightarrow> strip s \<noteq> [] \<Longrightarrow>
     split_step g lib self s (chunks, current_chunk) =
       (case num_tokens g (strip s) of
          Inl e \<Rightarrow> Inl e
        | Inr n \<Rightarrow>
            (case int_tenth limit of
               Inl e \<Rightarrow> Inl e
             | Inr tenth \<Rightarrow>
                 if limit + tenth < int n then
                   (case split_long_sentence g lib self (strip s) of
                      Inl e \<Rightarrow> Inl e
                    | Inr subchunks \<Rightarrow> subchunk_loop g self subchunks (chunks, current_chunk))
                 else add_to_chunks g self (strip s) chunks current_chunk)) \<and>
     (is_initialized g \<and> encoding g = Some enc \<and> encode enc (strip s) = Some toks \<and>
      0 < limit \<and> limit < 2 ^ 46 \<longrightarrow>
      split_step g lib self s (chunks, current_chunk) =
        (if limit + limit div 10 < int (length toks) then
           (case split_long_sentence g lib self (strip s) of
              Inl e \<Rightarrow> Inl e
            | Inr subchunks \<Rightarrow> subchunk_loop g self subchunks (chunks, current_chunk))
         else add_to_chunks g self (strip s) chunks current_chunk))"
  by (simp add: split_step_def Let_def int_tenth_small num_tokens_def split: sum.splits)

theorem long_sentence_threshold_witness:
  "chunk_limit \<lparr>chunk_limit = Some 10, overlap = Some 1\<rparr> = Some 10 \<and>
   is_initialized ready \<and> encoding ready = Some letter_tokens \<and>
   (0::int) < 10 \<and> (10::int) < 2 ^ 46 \<and>
   strip (str ''a b c d e f g h i j'') \<noteq> [] \<and>
   map_option length (encode letter_tokens (strip (str ''a b c d e f g h i j''))) = Some 10 \<and>
   split_step ready lib_without_nltk \<lparr>chunk_limit = Some 10, overlap = Some 1\<rparr>
       (str ''a b c d e f g h i j'') ([], [])
     = add_to_chunks ready \<lparr>chunk_limit = Some 10, overlap = Some 1\<rparr>
         (str ''a b c d e f g h i j'') [] [] \<and>
   strip (str ''a b c d e f g h i j k l'') \<noteq> [] \<and>
   map_option length (encode letter_tokens (strip (str ''a b c d e f g h i j k l'')))
     = Some (10 + 10 div 10 + 1) \<and>
   split_step ready lib_without_nltk \<lparr>chunk_limit = Some 10, overlap = Some 1\<rparr>
       (str ''a b c d e f g h i j k l'') ([], [])
     = subchunk_loop ready \<lparr>chunk_limit = Some 10, overlap = Some 1\<rparr>
         [str ''a b c d e f g h i j'', str ''k l''] ([], [])"
proof -
  let ?self = "\<lparr>chunk_limit = Some 10, overlap = Some 1\<rparr>"
  have limit: "chunk_limit ?self = Some 10" by simp
  have init: "is_initialized ready" and enc: "encoding ready = Some letter_tokens"
    by (simp_all add: ready_def)
  have s1: "strip (str ''a b c d e f g h i j'') = str ''a b c d e f g h i j''"
    and s2: "strip (str ''a b c d e f g h i j k l'') = str ''a b c d e f g h i j k l''"
    by (simp_all add: strip_def str_def isspace_def)
  have n1: "strip (str ''a b c d e f g h i j'') \<noteq> []"
    and n2: "strip (str ''a b c d e f g h i j k l'') \<noteq> []"
    unfolding s1 s2 by (simp_all add: str_def)
  have t1: "encode letter_tokens (strip (str ''a b c d e f g h i j''))
      = Some (letter_encode (str ''a b c d e f g h i j''))"
    and t2: "encode letter_tokens (strip (str ''a b c d e f g h i j k l''))
      = Some (letter_encode (str ''a b c d e f g h i j k l''))"
    unfolding s1 s2 by (simp_all add: letter_tokens_def)
  have c1: "length (letter_encode (str ''a b c d e f g h i j'')) = 10"
    and c2: "length (letter_encode (str ''a b c d e f g h i j k l'')) = 12"
    by (simp_all add: str_def)
  have long: "split_long_sentence ready lib_without_nltk ?self (str ''a b c d e f g h i j k l'')
      = Inr [str ''a b c d e f g h i j'', str ''k l'']"
    by (simp add: run_defs)
  have b1: "split_step ready lib_without_nltk ?self (str ''a b c d e f g h i j'') ([], [])
      = add_to_chunks ready ?self (str ''a b c d e f g h i j'') [] []"
    using long_sentence_threshold [OF limit n1, of ready lib_without_nltk "[]" "[]" letter_tokens
        "letter_encode (str ''a b c d e f g h i j'')", THEN conjunct2] init enc t1 c1
    unfolding s1 by simp
  have b2: "split_step ready lib_without_nltk ?self (str ''a b c d e f g h i j k l'') ([], [])
      = subchunk_loop ready ?self [str ''a b c d e f g h i j'', str ''k l''] ([], [])"
    using long_sentence_threshold [OF limit n2, of ready lib_without_nltk "[]" "[]" letter_tokens
        "letter_encode (str ''a b c d e f g h i j k l'')", THEN conjunct2] init enc t2 c2 long
    unfolding s2 by simp
  show ?thesis
    using limit init enc n1 n2 t1 t2 c1 c2 b1 b2 by simp
qed

section \<open>No word of a sentence is lost\<close>

lemma add_to_chunks_words:
  assumes "add_to_chunks g self u chunks cur = Inr (chunks', cur')"
  shows "subseq (concat (map str_split chunks) @ concat (map str_split cur) @ str_split u)
           (concat (map str_split chunks') @ concat (map str_split cur'))"
  using assms
proof (cases rule: add_to_chunks_Inr)
  case (keep n limit)
  then show ?thesis by simp
next
  case (flush n limit enc toks ov)
  let ?seed = "strip (decode enc (slice_from (- ov) toks))"
  have "concat (map str_split chunks') @ concat (map str_split cur')
      = (concat (map str_split chunks) @ concat (map str_split cur)) @ str_split ?seed @ str_split u"
    using flush(7,8) by (simp add: str_split_join)
  moreover have "subseq (str_split u) (str_split ?seed @ str_split u)"
    by (rule list_emb_append2) simp
  ultimately show ?thesis
    by (metis append_assoc list_emb_append_mono subseq_order.order_refl)
qed

lemma subchunk_loop_words:
  "subchunk_loop g self subs (chunks, cur) = Inr (chunks', cur') \<Longrightarrow>
     subseq (concat (map str_split chunks) @ concat (map str_split cur) @ concat (map str_split subs))
       (concat (map str_split chunks') @ concat (map str_split cur'))"
proof (induction subs arbitrary: chunks cur)
  case Nil
  then show ?case by simp
next
  case (Cons sub subs)
  from Cons.prems show ?case
  proof (cases rule: subchunk_loop_Cons)
    case blank
    then show ?thesis using Cons.IH by (simp add: str_split_blank)
  next
    case (merge n limit c1 k1)
    have "subseq (concat (map str_split chunks) @ concat (map str_split cur) @ str_split sub)
        (concat (map str_split c1) @ concat (map str_split k1))"
      using add_to_chunks_words [OF merge(5)] by (simp add: str_split_strip)
    then have "subseq ((concat (map str_split chunks) @ concat (map str_split cur) @ str_split sub)
          @ concat (map str_split subs))
        ((concat (map str_split c1) @ concat (map str_split k1)) @ concat (map str_split subs))"
      by (rule list_emb_append_mono) simp
    then show ?thesis using Cons.IH [OF merge(6)] by (simp add: subseq_order.order_trans)
  next
    case (alone n limit)
    have "concat (map str_split ((if cur \<noteq> [] then chunks @ [join cur] else chunks) @ [strip sub]))
        = concat (map str_split chunks) @ concat (map str_split cur) @ str_split sub"
      by (simp add: str_split_join str_split_strip)
    then show ?thesis using Cons.IH [OF alone(5)] by simp
  qed
qed

lemma word_loop_words:
  "word_loop g self ws (wc, cw) = Inr (wc', cw') \<Longrightarrow>
     concat (map str_split wc') @ concat (map str_split cw')
       = concat (map str_split wc) @ concat (map str_split cw) @ concat (map str_split ws)"
proof (induction ws arbitrary: wc cw)
  case Nil
  then show ?case by simp
next
  case (Cons w ws)
  from Cons.prems show ?case
  proof (cases rule: word_loop_Cons)
    case (close n limit)
    then show ?thesis using Cons.IH [OF close(5)] by (simp add: str_split_join)
  next
    case (extend n limit)
    then show ?thesis using Cons.IH [OF extend(4)] by simp
  qed
qed

lemma split_long_sentence_words:
  assumes "split_long_sentence g lib self s = Inr subs"
  shows "concat (map str_split subs) =
     (if length (words_of lib s) \<le> 1 then str_split s
      else concat (map str_split (words_of lib s)))"
  using assms
proof (cases rule: split_long_sentence_Inr)
  case whole
  then show ?thesis by simp
next
  case (cut wc cw)
  then show ?thesis using word_loop_words [OF cut(2)] by (simp add: str_split_join)
qed

lemma split_step_words:
  assumes "split_step g lib self s (chunks, cur) = Inr (chunks', cur')"
  shows "\<exists>ws. carries g lib self s ws \<and>
     subseq (concat (map str_split chunks) @ concat (map str_split cur) @ ws)
       (concat (map str_split chunks') @ concat (map str_split cur'))"
  using assms
proof (cases rule: split_step_Inr)
  case blank
  then have "carries g lib self s (str_split s) \<and>
     subseq (concat (map str_split chunks) @ concat (map str_split cur) @ str_split s)
       (concat (map str_split chunks') @ concat (map str_split cur'))"
    by (simp add: carries_def str_split_blank)
  then show ?thesis by blast
next
  case (merge n limit tenth)
  then have "subseq (concat (map str_split chunks) @ concat (map str_split cur) @ str_split s)
       (concat (map str_split chunks') @ concat (map str_split cur'))"
    using add_to_chunks_words [of g self "strip s"] by (simp add: str_split_strip)
  then show ?thesis unfolding carries_def by blast
next
  case (long n limit tenth subs)
  have emb: "subseq (concat (map str_split chunks) @ concat (map str_split cur)
        @ concat (map str_split subs))
      (concat (map str_split chunks') @ concat (map str_split cur'))"
    using long(7) by (rule subchunk_loop_words)
  have "carries g lib self s (concat (map str_split subs))"
    using split_long_sentence_words [OF long(6)]
    using long(1-5) by (auto simp: carries_def takes_word_path_def str_split_strip split: if_splits)
  then show ?thesis using emb by blast
qed

lemma sentence_loop_words:
  "sentence_loop g lib self ss (chunks, cur) = Inr (chunks', cur') \<Longrightarrow>
     \<exists>wss. list_all2 (carries g lib self) ss wss \<and>
       subseq (concat (map str_split chunks) @ concat (map str_split cur) @ concat wss)
         (concat (map str_split chunks') @ concat (map str_split cur'))"
proof (induction ss arbitrary: chunks cur)
  case Nil
  then show ?case by simp
next
  case (Cons s ss)
  from Cons.prems obtain st1 where st: "split_step g lib self s (chunks, cur) = Inr st1"
    and l0: "sentence_loop g lib self ss st1 = Inr (chunks', cur')"
    by (rule sentence_loop_Cons)
  obtain c1 k1 where st1: "st1 = (c1, k1)" by (cases st1)
  note st = st [unfolded st1] and l = l0 [unfolded st1]
  obtain ws where ws: "carries g lib self s ws"
    and e1: "subseq (concat (map str_split chunks) @ concat (map str_split cur) @ ws)
       (concat (map str_split c1) @ concat (map str_split k1))"
    using split_step_words [OF st] by blast
  obtain wss where wss: "list_all2 (carries g lib self) ss wss"
    and e2: "subseq (concat (map str_split c1) @ concat (map str_split k1) @ concat wss)
         (concat (map str_split chunks') @ concat (map str_split cur'))"
    using Cons.IH [OF l] by blast
  have "subseq ((concat (map str_split chunks) @ concat (map str_split cur) @ ws) @ concat wss)
       ((concat (map str_split c1) @ concat (map str_split k1)) @ concat wss)"
    using e1 by (rule list_emb_append_mono) simp
  then have "subseq (concat (map str_split chunks) @ concat (map str_split cur) @ concat (ws # wss))
      (concat (map str_split chunks') @ concat (map str_split cur'))"
    using e2 by (simp add: subseq_order.order_trans)
  moreover have "list_all2 (carries g lib self) (s # ss) (ws # wss)" using ws wss by simp
  ultimately show ?case by blast
qed

lemma SmartChunker_split_words:
  assumes "SmartChunker_split g lib self text = Inr chunks"
  shows "\<exists>wss. list_all2 (carries g lib self) (sentences_of lib text) wss \<and>
     subseq (concat wss) (concat (map str_split chunks))"
proof -
  obtain c k where l: "sentence_loop g lib self (sentences_of lib text) ([], []) = Inr (c, k)"
    using assms
    by (cases "sentence_loop g lib self (sentences_of lib text) ([], [])")
      (auto simp: SmartChunker_split_def)
  then have "chunks = (if k \<noteq> [] then c @ [join k] else c)"
    using assms by (simp add: SmartChunker_split_def)
  then have "concat (map str_split chunks) = concat (map str_split c) @ concat (map str_split k)"
    by (simp add: str_split_join)
  then show ?thesis using sentence_loop_words [OF l] by simp
qed

section \<open>The words of the fallback sentence splitter\<close>







section \<open>No word of the normalized text is lost\<close>

lemma split_ws_parts:
  "\<forall>c\<in>set w. \<not> isspace c \<Longrightarrow>
     \<forall>v\<in>set (split_ws w s). v \<noteq> [] \<and> (\<forall>c\<in>set v. \<not> isspace c)"
proof (induction s arbitrary: w)
  case Nil
  then show ?case by simp
next
  case (Cons a s)
  have nil: "\<forall>c\<in>set ([]::pystr). \<not> isspace c" by simp
  show ?case
  proof (cases "isspace a")
    case True
    then show ?thesis using Cons.IH [OF nil] Cons.prems by auto
  next
    case False
    then have "\<forall>c\<in>set (w @ [a]). \<not> isspace c" using Cons.prems by simp
    then show ?thesis using Cons.IH [of "w @ [a]"] False by simp
  qed
qed

lemma str_split_word: "v \<noteq> [] \<Longrightarrow> \<forall>c\<in>set v. \<not> isspace c \<Longrightarrow> str_split v = [v]"
proof -
  have "\<forall>c\<in>set v. \<not> isspace c \<Longrightarrow> split_ws w v = (if w @ v = [] then [] else [w @ v])" for w
    by (induction v arbitrary: w) auto
  then show "v \<noteq> [] \<Longrightarrow> \<forall>c\<in>set v. \<not> isspace c \<Longrightarrow> str_split v = [v]"
    by (simp add: str_split_def)
qed

lemma str_split_words: "concat (map str_split (str_split x)) = str_split x"
proof -
  have "\<forall>v\<in>set xs. str_split v = [v] \<Longrightarrow> concat (map str_split xs) = xs" for xs
    by (induction xs) simp_all
  moreover have "\<forall>v\<in>set (str_split x). str_split v = [v]"
    using split_ws_parts [of "[]" x] str_split_word unfolding str_split_def by simp
  ultimately show ?thesis by blast
qed






section \<open>When the program returns\<close>

lemma num_tokens_total:
  assumes "is_initialized g" and "encoding g = Some enc" and "\<forall>t. encode enc t \<noteq> None"
  shows "\<exists>n. num_tokens g t = Inr n"
proof -
  have "encode enc t \<noteq> None" using assms(3) by blast
  then obtain toks where "encode enc t = Some toks" by auto
  then show ?thesis using assms(1,2) by (simp add: num_tokens_def)
qed

lemma word_loop_total:
  assumes "is_initialized g" and "encoding g = Some enc" and "\<forall>t. encode enc t \<noteq> None"
    and "chunk_limit self = Some limit"
  shows "\<exists>st'. word_loop g self ws st = Inr st'"
proof (induction ws arbitrary: st)
  case Nil
  show ?case by simp
next
  case (Cons w ws)
  obtain wc cw where st: "st = (wc, cw)" by (cases st)
  obtain n where n: "num_tokens g (join (cw @ [w])) = Inr n"
    using num_tokens_total [OF assms(1-3)] by blast
  show ?case unfolding st using Cons [of "(wc @ [join cw], [w])"] Cons [of "(wc, cw @ [w])"] n
    by (simp add: assms(4) Let_def)
qed

lemma split_long_sentence_total:
  assumes "is_initialized g" and "encoding g = Some enc" and "\<forall>t. encode enc t \<noteq> None"
    and "chunk_limit self = Some limit"
  shows "\<exists>subs. split_long_sentence g lib self s = Inr subs"
proof -
  obtain st' where "word_loop g self (words_of lib s) ([], []) = Inr st'"
    using word_loop_total [OF assms] by blast
  then show ?thesis
    by (cases st') (simp add: split_long_sentence_def Let_def)
qed

lemma add_to_chunks_total:
  assumes "is_initialized g" and "encoding g = Some enc" and "\<forall>t. encode enc t \<noteq> None"
    and "chunk_limit self = Some limit" and "overlap self = Some ov"
  shows "\<exists>st'. add_to_chunks g self u chunks cur = Inr st'"
proof -
  obtain n where n: "num_tokens g (join (cur @ [u])) = Inr n"
    using num_tokens_total [OF assms(1-3)] by blast
  have "encode enc (join cur) \<noteq> None" using assms(3) by blast
  then obtain toks where "encode enc (join cur) = Some toks" by auto
  then show ?thesis using n assms(2,4,5) by (simp add: add_to_chunks_def Let_def)
qed

lemma subchunk_loop_total:
  assumes "is_initialized g" and "encoding g = Some enc" and "\<forall>t. encode enc t \<noteq> None"
    and "chunk_limit self = Some limit" and "overlap self = Some ov"
  shows "\<exists>st'. subchunk_loop g self subs st = Inr st'"
proof (induction subs arbitrary: st)
  case Nil
  show ?case by simp
next
  case (Cons sub subs)
  obtain chunks cur where st: "st = (chunks, cur)" by (cases st)
  obtain st1 where a: "add_to_chunks g self (strip sub) chunks cur = Inr st1"
    using add_to_chunks_total [OF assms] by blast
  obtain n where n: "num_tokens g sub = Inr n"
    using num_tokens_total [OF assms(1-3)] by blast
  show ?case unfolding st using Cons a n by (simp add: assms(4))
qed

lemma split_step_total:
  assumes "is_initialized g" and "encoding g = Some enc" and "\<forall>t. encode enc t \<noteq> None"
    and "chunk_limit self = Some limit" and "overlap self = Some ov"
    and "int_tenth limit = Inr tenth"
  shows "\<exists>st'. split_step g lib self s st = Inr st'"
proof -
  obtain subs where l: "split_long_sentence g lib self (strip s) = Inr subs"
    using split_long_sentence_total [OF assms(1-4)] by blast
  obtain st1 where a: "add_to_chunks g self (strip s) (fst st) (snd st) = Inr st1"
    using add_to_chunks_total [OF assms(1-5)] by blast
  obtain n where n: "num_tokens g (strip s) = Inr n"
    using num_tokens_total [OF assms(1-3)] by blast
  show ?thesis using l a n subchunk_loop_total [OF assms(1-5)]
    by (simp add: split_step_def Let_def assms(4,6))
qed

lemma sentence_loop_total:
  assumes "is_initialized g" and "encoding g = Some enc" and "\<forall>t. encode enc t \<noteq> None"
    and "chunk_limit self = Some limit" and "overlap self = Some ov"
    and "int_tenth limit = Inr tenth"
  shows "\<exists>st'. sentence_loop g lib self ss st = Inr st'"
proof (induction ss arbitrary: st)
  case Nil
  show ?case by simp
next
  case (Cons s ss)
  obtain st1 where "split_step g lib self s st = Inr st1"
    using split_step_total [OF assms] by blast
  then show ?case using Cons by simp
qed

lemma SmartChunker_split_total:
  assumes "is_initialized g" and "encoding g = Some enc" and "\<forall>t. encode enc t \<noteq> None"
    and "chunk_limit self = Some limit" and "overlap self = Some ov"
    and "int_tenth limit = Inr tenth"
  shows "\<exists>chunks. SmartChunker_split g lib self text = Inr chunks"
proof -
  obtain st' where "sentence_loop g lib self (sentences_of lib text) ([], []) = Inr st'"
    using sentence_loop_total [OF assms] by blast
  then show ?thesis by (cases st') (simp add: SmartChunker_split_def)
qed

section \<open>A text that is not cleaned away gives a chunk\<close>

lemma nonspace_nonblank: "c \<in> set p \<Longrightarrow> \<not> isspace c \<Longrightarrow> strip p \<noteq> []"
  using split_ws_nonspace [of p "[]"] str_split_blank [of p] by (auto simp: str_split_def)

lemma strip_last: "strip x \<noteq> [] \<Longrightarrow> \<not> isspace (last (strip x))"
proof -
  assume a: "strip x \<noteq> []"
  let ?d = "dropWhile isspace (rev (dropWhile isspace x))"
  have d: "?d \<noteq> []" using a by (simp add: strip_def)
  then have "\<not> isspace (hd ?d)" by (rule hd_dropWhile)
  moreover have "last (strip x) = hd ?d" using d by (simp add: strip_def last_rev)
  ultimately show ?thesis by simp
qed

lemma re_split_nonempty: "re_split cur pend sp t \<noteq> []"
  by (induction t arbitrary: cur pend sp) simp_all

lemma re_split_last:
  "t \<noteq> [] \<Longrightarrow> \<not> isspace (last t) \<Longrightarrow> last t \<in> set (last (re_split cur pend sp t))"
proof (induction t arbitrary: cur pend sp)
  case Nil
  then show ?case by simp
next
  case (Cons c cs)
  show ?case
  proof (cases "cs = []")
    case True
    then show ?thesis using Cons.prems by simp
  next
    case False
    then show ?thesis using Cons.IH Cons.prems by (simp add: re_split_nonempty)
  qed
qed

lemma simple_sentence_split_nonblank:
  assumes "t \<noteq> []" and "\<not> isspace (last t)"
  shows "\<exists>s\<in>set (simple_sentence_split t). strip s \<noteq> []"
proof -
  let ?p = "last (re_split [] [] False t)"
  have "?p \<in> set (re_split [] [] False t)" by (simp add: re_split_nonempty)
  moreover have "strip ?p \<noteq> []"
    using re_split_last [OF assms] assms(2) by (rule nonspace_nonblank)
  ultimately have "strip ?p \<in> set (simple_sentence_split t)"
    by (simp add: simple_sentence_split_def)
  moreover have "strip (strip ?p) \<noteq> []" using \<open>strip ?p \<noteq> []\<close> by (simp add: strip_strip)
  ultimately show ?thesis by blast
qed

lemma cleaned_last:
  assumes "clean_text_advanced lib text = Some cleaned" and "cleaned \<noteq> []"
  shows "\<not> isspace (last cleaned)"
proof -
  obtain x where "cleaned = strip x"
    using assms by (auto simp: clean_text_advanced_def split: if_splits option.splits)
  then show ?thesis using assms(2) strip_last by simp
qed

lemma carries_nonblank:
  assumes "carries g lib self s ws" and "strip s \<noteq> []"
    and "\<forall>v. takes_word_path g self s \<and> word_tokenize lib (strip s) = Some v \<and> 2 \<le> length v \<longrightarrow>
           (\<exists>w\<in>set v. strip w \<noteq> [])"
  shows "ws \<noteq> []"
proof (cases "ws = str_split s")
  case True
  then show ?thesis using assms(2) by (simp add: str_split_nonblank)
next
  case False
  then have path: "takes_word_path g self s" and two: "2 \<le> length (words_of lib (strip s))"
    and ws: "ws = concat (map str_split (words_of lib (strip s)))"
    using assms(1) by (auto simp: carries_def)
  show ?thesis
  proof (cases "word_tokenize lib (strip s)")
    case None
    then show ?thesis
      using ws assms(2) by (simp add: words_of_def str_split_words str_split_strip str_split_nonblank)
  next
    case (Some v)
    then obtain w where "w \<in> set v" and "strip w \<noteq> []"
      using assms(3) path two by (auto simp: words_of_def)
    then have "w \<in> set v" and "str_split w \<noteq> []" by (simp_all add: str_split_nonblank)
    then show ?thesis using ws Some by (auto simp: words_of_def)
  qed
qed

text \<open>
  Claim C4, as the program has it. Let the normalized text be non-empty. Then \<^verbatim>\<open>split\<close> never returns
  the empty list; and it does return, with at least one chunk, when the service is
  initialized, \<^verbatim>\<open>encode\<close> raises on no text, the limit and the overlap are integers and
  \<^verbatim>\<open>int(self.chunk_limit * 0.1)\<close> does not overflow. When the repository's own splitters run
  (NLTK raises), this needs nothing more. When NLTK is at work, \<^verbatim>\<open>sent_tokenize\<close> has to
  give at least one sentence that is not blank for this text, and \<^verbatim>\<open>word_tokenize\<close> at
  least one word that is not blank for each sentence that takes the word-level path and
  is cut into two words or more.
\<close>

theorem cleaned_text_gives_a_chunk:
  assumes "clean_text_advanced lib text = Some cleaned" and "cleaned \<noteq> []"
    and "\<forall>ss. sent_tokenize lib cleaned = Some ss \<longrightarrow> (\<exists>s\<in>set ss. strip s \<noteq> [])"
    and "\<forall>s\<in>set (sentences_of lib text). \<forall>ws.
           takes_word_path g self s \<and> word_tokenize lib (strip s) = Some ws \<and> 2 \<le> length ws \<longrightarrow>
           (\<exists>w\<in>set ws. strip w \<noteq> [])"
  shows "SmartChunker_split g lib self text \<noteq> Inr [] \<and>
     (is_initialized g \<and> encoding g = Some enc \<and> (\<forall>t. encode enc t \<noteq> None) \<and>
      chunk_limit self = Some limit \<and> int_tenth limit = Inr tenth \<and> overlap self = Some ov \<longrightarrow>
      (\<exists>chunks. SmartChunker_split g lib self text = Inr chunks \<and> chunks \<noteq> []))"
proof -
  obtain s where s: "s \<in> set (sentences_of lib text)" and nb: "strip s \<noteq> []"
  proof (cases "sent_tokenize lib cleaned")
    case None
    then have "sentences_of lib text = simple_sentence_split cleaned"
      using assms(1) by (simp add: sentences_of_def)
    then show ?thesis
      using simple_sentence_split_nonblank [OF assms(2) cleaned_last [OF assms(1,2)]] that
      by auto
  next
    case (Some ss)
    then have "sentences_of lib text = ss" using assms(1) by (simp add: sentences_of_def)
    then show ?thesis using assms(3) Some that by auto
  qed
  have nonempty: "SmartChunker_split g lib self text \<noteq> Inr []"
  proof
    assume r: "SmartChunker_split g lib self text = Inr []"
    obtain wss where all: "list_all2 (carries g lib self) (sentences_of lib text) wss"
      and emb: "subseq (concat wss) (concat (map str_split []))"
      using SmartChunker_split_words [OF r] by blast
    obtain i where i: "i < length (sentences_of lib text)" and si: "sentences_of lib text ! i = s"
      using s by (auto simp: in_set_conv_nth)
    have "wss ! i \<in> set wss" and "carries g lib self s (wss ! i)"
      using all i si by (auto simp: list_all2_conv_all_nth)
    moreover have "\<forall>v. takes_word_path g self s \<and> word_tokenize lib (strip s) = Some v \<and>
        2 \<le> length v \<longrightarrow> (\<exists>w\<in>set v. strip w \<noteq> [])"
      using assms(4) s by blast
    ultimately have "wss ! i \<in> set wss" and "wss ! i \<noteq> []"
      using carries_nonblank [OF _ nb] by blast+
    then have "concat wss \<noteq> []" by auto
    then show False using emb by simp
  qed
  have "\<exists>chunks. SmartChunker_split g lib self text = Inr chunks \<and> chunks \<noteq> []"
    if "is_initialized g" and "encoding g = Some enc" and "\<forall>t. encode enc t \<noteq> None"
      and "chunk_limit self = Some limit" and "int_tenth limit = Inr tenth"
      and "overlap self = Some ov"
    using SmartChunker_split_total [OF that(1-4,6,5), of lib "text"] nonempty by auto
  then show ?thesis using nonempty by blast
qed

text \<open>
  The text \<^verbatim>\<open>"<p>a b c d</p>"\<close> with the limit 3 and the overlap 1, NLTK at work: the
  normalized text is \<^verbatim>\<open>"a b c d"\<close>, one sentence that takes the word-level path.
\<close>

theorem cleaned_text_gives_a_chunk_witness:
  "clean_text_advanced lib_with_nltk (str ''<p>a b c d</p>'') = Some (str ''a b c d'') \<and>
   str ''a b c d'' \<noteq> [] \<and>
   takes_word_path ready \<lparr>chunk_limit = Some 3, overlap = Some 1\<rparr> (str ''a b c d'') \<and>
   SmartChunker_split ready lib_with_nltk \<lparr>chunk_limit = Some 3, overlap = Some 1\<rparr>
       (str ''<p>a b c d</p>'') = Inr [str ''a b c'', str ''c d''] \<and>
   (\<exists>chunks. SmartChunker_split ready lib_with_nltk \<lparr>chunk_limit = Some 3, overlap = Some 1\<rparr>
       (str ''<p>a b c d</p>'') = Inr chunks \<and> chunks \<noteq> [])"
proof -
  let ?self = "\<lparr>chunk_limit = Some 3, overlap = Some 1\<rparr>"
  let ?t = "str ''<p>a b c d</p>''"
  have c: "clean_text_advanced lib_with_nltk ?t = Some (str ''a b c d'')"
    by (simp add: run_defs)
  have ne: "str ''a b c d'' \<noteq> []"
    by (simp add: str_def)
  have s: "sentences_of lib_with_nltk ?t = [str ''a b c d'']"
    by (simp add: run_defs)
  have p: "takes_word_path ready ?self (str ''a b c d'')"
    by (simp add: takes_word_path_def run_defs)
  have r: "SmartChunker_split ready lib_with_nltk ?self ?t = Inr [str ''a b c'', str ''c d'']"
    by (simp add: run_defs)
  have S: "\<forall>ss. sent_tokenize lib_with_nltk (str ''a b c d'') = Some ss \<longrightarrow>
      (\<exists>s\<in>set ss. strip s \<noteq> [])"
    by (simp add: run_defs)
  have W: "\<forall>s\<in>set (sentences_of lib_with_nltk ?t). \<forall>ws.
      takes_word_path ready ?self s \<and> word_tokenize lib_with_nltk (strip s) = Some ws \<and>
        2 \<le> length ws \<longrightarrow> (\<exists>w\<in>set ws. strip w \<noteq> [])"
    unfolding s by (simp add: run_defs)
  have i: "is_initialized ready \<and> encoding ready = Some letter_tokens \<and>
      (\<forall>t. encode letter_tokens t \<noteq> None) \<and> chunk_limit ?self = Some 3 \<and>
      int_tenth 3 = Inr 0 \<and> overlap ?self = Some 1"
    by (simp add: ready_def letter_tokens_def int_tenth_small)
  from cleaned_text_gives_a_chunk [OF c ne S W, of letter_tokens 3 0 1] i c ne p r
  show ?thesis by blast
qed

text \<open>
  Claim C4 as it is stated fails: the text of the two characters U+4F60 U+597D is not
  blank and passes validation, cleaning it leaves nothing, and the answer is a response
  with no chunk.
\<close>

theorem cleaned_away_text_gives_no_chunk:
  "strip [20320, 22909] \<noteq> [] \<and>
   clean_text_advanced lib_without_nltk [20320, 22909] = Some [] \<and>
   chunk_text ready lib_without_nltk
     \<lparr>request_text = [20320, 22909], chunk_token_limit = Some 200, overlap_tokens = Some 50\<rparr>
   = Inr \<lparr>status = str ''success'',
          message = str ''Text successfully chunked into 0 chunks'',
          response_chunks = [], total_chunks = 0, total_tokens = 0\<rparr>"
  by (simp add: run_defs str_of_nat.simps)

section \<open>The overlap seed\<close>

lemma add_to_chunks_overflow:
  assumes "is_initialized g" and "encoding g = Some enc"
    and "encode enc (join (current_chunk @ [sentence])) = Some test_tokens"
    and "encode enc (join current_chunk) = Some tokens"
    and "chunk_limit self = Some limit" and "overlap self = Some n"
    and "limit < int (length test_tokens)"
  shows "add_to_chunks g self sentence chunks current_chunk =
     Inr (chunks @ [join current_chunk],
       [strip (decode enc
          (if 0 < n then drop (length tokens - nat n) tokens
           else drop (nat (- n)) tokens)),
        sentence])"
  using assms by (simp add: add_to_chunks_def num_tokens_def slice_from_def Let_def)

text \<open>
  Claim C2 asks that an overlap of 0 seeds the next chunk with nothing. The program takes
  \<^verbatim>\<open>tokens[-0:]\<close>, which is the whole list: with the limit 3 and the overlap 0, the second
  chunk of \<^verbatim>\<open>"a b! c d"\<close> starts with the whole first chunk.
\<close>

theorem zero_overlap_seeds_the_whole_chunk:
  "sentences_of lib_without_nltk (str ''a b! c d'') = [str ''a b'', str ''c d''] \<and>
   add_to_chunks ready \<lparr>chunk_limit = Some 3, overlap = Some 0\<rparr> (str ''c d'') [] [str ''a b'']
     = Inr ([str ''a b''], [str ''a b'', str ''c d'']) \<and>
   SmartChunker_split ready lib_without_nltk \<lparr>chunk_limit = Some 3, overlap = Some 0\<rparr>
       (str ''a b! c d'')
     = Inr [str ''a b'', str ''a b c d'']"
  by (simp add: run_defs)

section \<open>Empty chunks\<close>

text \<open>
  Claim C3 asks that no chunk is empty. With the limit 10, a first sentence of 11 tokens is
  within the slack of a tenth and goes to the merge step while the buffer is empty; the
  merge step saves the empty buffer as a chunk.
\<close>

theorem empty_chunk_is_returned:
  "num_tokens ready (str ''a b c d e f g h i j k'') = Inr 11 \<and>
   SmartChunker_split ready lib_without_nltk \<lparr>chunk_limit = Some 10, overlap = Some 2\<rparr>
     (str ''a b c d e f g h i j k'')
   = Inr [[], str '' a b c d e f g h i j k'']"
  by (simp add: run_defs)

section \<open>Cleaning a text twice\<close>

lemma tidy_Cons: "\<not> isspace c \<Longrightarrow> tidy r \<Longrightarrow> tidy (c # r)"
  by (cases r) simp_all

lemma tidy_blank: "tidy r \<Longrightarrow> r = [] \<or> \<not> isspace (hd r) \<Longrightarrow> tidy (32 # r)"
  by (cases r) simp_all

lemma tidy_sub_spaces:
  "tidy (sub_spaces False t) \<and> tidy (sub_spaces True t) \<and>
   (sub_spaces True t = [] \<or> \<not> isspace (hd (sub_spaces True t)))"
  by (induction t) (auto simp: tidy_Cons tidy_blank)

lemma sub_spaces_tidy: "tidy t \<Longrightarrow> sub_spaces False t = t"
  by (induction t rule: tidy.induct) auto

lemma tidy_append: "tidy (xs @ ys) \<Longrightarrow> tidy xs \<and> tidy ys"
proof (induction xs rule: tidy.induct)
  case 1
  then show ?case by simp
next
  case (2 c)
  then show ?case by (cases ys) auto
next
  case (3 c d cs)
  then show ?case by auto
qed

lemma tidy_strip: "tidy t \<Longrightarrow> tidy (strip t)"
proof -
  assume t: "tidy t"
  have "t = takeWhile isspace t @ dropWhile isspace t" by simp
  then have v: "tidy (dropWhile isspace t)" using t tidy_append by metis
  have "dropWhile isspace t = strip t @ rev (takeWhile isspace (rev (dropWhile isspace t)))"
    unfolding strip_def by (rule drop_trailing [symmetric])
  then show ?thesis using v tidy_append by metis
qed

lemma set_strip: "set (strip t) \<subseteq> set t"
proof
  fix c
  assume "c \<in> set (strip t)"
  then have "c \<in> set (dropWhile isspace (rev (dropWhile isspace t)))"
    by (simp add: strip_def)
  then have "c \<in> set (rev (dropWhile isspace t))"
    by (rule set_dropWhileD)
  then have "c \<in> set (dropWhile isspace t)"
    by simp
  then show "c \<in> set t"
    by (rule set_dropWhileD)
qed

lemma set_sub_spaces: "set (sub_spaces b t) \<subseteq> insert 32 (set t)"
  by (induction t arbitrary: b) auto

lemma printable_cleaned:
  "filter printable (strip (sub_spaces False (filter printable z)))
     = strip (sub_spaces False (filter printable z))"
proof -
  have "\<forall>c\<in>set (strip (sub_spaces False (filter printable z))). printable c"
    using set_strip [of "sub_spaces False (filter printable z)"]
      set_sub_spaces [of False "filter printable z"]
    by (auto simp: printable_def)
  then show ?thesis by (simp add: filter_id_conv)
qed

lemma whitespace_cleaned:
  "strip (sub_spaces False (strip (sub_spaces False t))) = strip (sub_spaces False t)"
proof -
  have "tidy (strip (sub_spaces False t))"
    using tidy_sub_spaces tidy_strip by blast
  then show ?thesis by (simp add: sub_spaces_tidy strip_strip)
qed

text \<open>
  Claim C7, as the program has it. Cleaning a cleaned text changes nothing when the
  cleaned text is one that unescaping, tag stripping and NFKD leave as it is. The filter
  to printable characters and the whitespace clean-up are idempotent; unescaping and tag
  stripping are not, and a text that was escaped twice is unescaped once by each pass.
\<close>

theorem cleaning_twice:
  assumes "clean_text_advanced lib x = Some y"
    and "html_unescape lib y = y" and "strip_tags lib y = Some y" and "normalize_NFKD lib y = y"
  shows "clean_text_advanced lib y = Some y"
proof (cases "x = []")
  case True
  then show ?thesis using assms(1) by (auto simp: clean_text_advanced_def)
next
  case False
  then obtain z where y: "y = strip (sub_spaces False (filter printable z))"
    using assms(1) by (auto simp: clean_text_advanced_def split: option.splits)
  have "strip (sub_spaces False (filter printable y)) = y"
    unfolding y printable_cleaned whitespace_cleaned ..
  then show ?thesis using assms(2,3,4) by (simp add: clean_text_advanced_def)
qed

theorem cleaning_twice_witness:
  "clean_text_advanced lib_without_nltk (str ''  a <b>x</b>  y '') = Some (str ''a x y'') \<and>
   html_unescape lib_without_nltk (str ''a x y'') = str ''a x y'' \<and>
   strip_tags lib_without_nltk (str ''a x y'') = Some (str ''a x y'') \<and>
   normalize_NFKD lib_without_nltk (str ''a x y'') = str ''a x y'' \<and>
   clean_text_advanced lib_without_nltk (str ''a x y'') = Some (str ''a x y'')"
proof -
  have once: "clean_text_advanced lib_without_nltk (str ''  a <b>x</b>  y '') = Some (str ''a x y'')"
    by (simp add: run_defs)
  have unescape: "html_unescape lib_without_nltk (str ''a x y'') = str ''a x y''"
    by (simp add: run_defs)
  have tags: "strip_tags lib_without_nltk (str ''a x y'') = Some (str ''a x y'')"
    by (simp add: run_defs)
  have nfkd: "normalize_NFKD lib_without_nltk (str ''a x y'') = str ''a x y''"
    by (simp add: run_defs)
  show ?thesis
    using cleaning_twice [OF once unescape tags nfkd] once unescape tags nfkd by simp
qed

text \<open>
  Claim C7 as stated fails: cleaning \<^verbatim>\<open>"&amp;lt;b&amp;gt;x"\<close> gives \<^verbatim>\<open>"<b>x"\<close>, and cleaning
  that gives \<^verbatim>\<open>"x"\<close>.
\<close>

theorem cleaning_is_not_idempotent:
  "clean_text_advanced lib_without_nltk (str ''&amp;lt;b&amp;gt;x'') = Some (str ''<b>x'') \<and>
   clean_text_advanced lib_without_nltk (str ''<b>x'') = Some (str ''x'') \<and>
   str ''<b>x'' \<noteq> str ''x''"
  by (simp add: run_defs)

section \<open>Validation of the request\<close>

text \<open>
  The error of the validation is raised by the validation only: no call made after it
  raises \<^verbatim>\<open>ValueError("Text content cannot be empty")\<close>.
\<close>

lemma num_tokens_other:
  "num_tokens g t \<noteq> Inl (ValueError ''Text content cannot be empty'')"
  by (simp add: num_tokens_def split: option.splits)

lemma int_tenth_other:
  "int_tenth n \<noteq> Inl (ValueError ''Text content cannot be empty'')"
  by (simp add: int_tenth_def Let_def)

lemma add_to_chunks_other:
  "add_to_chunks g self u chunks cur \<noteq> Inl (ValueError ''Text content cannot be empty'')"
  using num_tokens_other [of g "join (cur @ [u])"]
  by (auto simp: add_to_chunks_def Let_def split: sum.splits option.splits)

lemma word_loop_other:
  "word_loop g self ws st \<noteq> Inl (ValueError ''Text content cannot be empty'')"
proof (induction ws arbitrary: st)
  case Nil
  show ?case by simp
next
  case (Cons w ws)
  obtain wc cw where st: "st = (wc, cw)" by (cases st)
  show ?case unfolding st
    using Cons [of "(wc @ [join cw], [w])"] Cons [of "(wc, cw @ [w])"]
      num_tokens_other [of g "join (cw @ [w])"]
    by (auto simp: Let_def split: sum.splits option.splits)
qed

lemma split_long_sentence_other:
  "split_long_sentence g lib self s \<noteq> Inl (ValueError ''Text content cannot be empty'')"
  using word_loop_other [of g self "words_of lib s" "([], [])"]
  by (auto simp: split_long_sentence_def Let_def split: sum.splits prod.splits)

lemma subchunk_loop_other:
  "subchunk_loop g self subs st \<noteq> Inl (ValueError ''Text content cannot be empty'')"
proof (induction subs arbitrary: st)
  case Nil
  show ?case by simp
next
  case (Cons sub subs)
  obtain chunks cur where st: "st = (chunks, cur)" by (cases st)
  show ?case unfolding st
    using Cons num_tokens_other [of g sub] add_to_chunks_other [of g self "strip sub" chunks cur]
    by (auto split: sum.splits option.splits)
qed

lemma split_step_other:
  "split_step g lib self s st \<noteq> Inl (ValueError ''Text content cannot be empty'')"
  using num_tokens_other [of g "strip s"] int_tenth_other split_long_sentence_other [of g lib self "strip s"]
    subchunk_loop_other [of g self _ st] add_to_chunks_other [of g self "strip s" "fst st" "snd st"]
  by (auto simp: split_step_def Let_def split: sum.splits option.splits)

lemma sentence_loop_other:
  "sentence_loop g lib self ss st \<noteq> Inl (ValueError ''Text content cannot be empty'')"
proof (induction ss arbitrary: st)
  case Nil
  show ?case by simp
next
  case (Cons s ss)
  show ?case using Cons split_step_other [of g lib self s st] by (auto split: sum.splits)
qed

lemma SmartChunker_split_other:
  "SmartChunker_split g lib self t \<noteq> Inl (ValueError ''Text content cannot be empty'')"
  using sentence_loop_other [of g lib self "sentences_of lib t" "([], [])"]
  by (auto simp: SmartChunker_split_def split: sum.splits prod.splits)

lemma sum_tokens_other:
  "sum_tokens g chunks \<noteq> Inl (ValueError ''Text content cannot be empty'')"
proof (induction chunks)
  case Nil
  show ?case by simp
next
  case (Cons c chunks)
  show ?case using Cons num_tokens_other [of g c] by (auto split: sum.splits)
qed

text \<open>
  Claim C6, as the program has it. \<^verbatim>\<open>_chunk_text\<close> fails with the validation error exactly when the
  text is empty or has only whitespace, whatever the state of the service, the limit and
  the overlap; it is raised before the chunker is made, and there is no response then.
  The limit is not validated: no request is rejected with the validation error for its
  limit.
\<close>

theorem chunk_text_validates_the_text:
  "chunk_text g lib request = Inl (ValueError ''Text content cannot be empty'') \<longleftrightarrow>
     request_text request = [] \<or> strip (request_text request) = []"
proof (cases "request_text request = [] \<or> strip (request_text request) = []")
  case True
  then show ?thesis by (simp add: chunk_text_def)
next
  case False
  have "chunk_text g lib request \<noteq> Inl (ValueError ''Text content cannot be empty'')"
    using False
      SmartChunker_split_other [of g lib _ "request_text request"] sum_tokens_other [of g]
    by (auto simp: chunk_text_def SmartChunker_init_def split: sum.splits)
  then show ?thesis using False by simp
qed

text \<open>
  A blank text is rejected, also before the service is initialized. A text that is not
  blank is not rejected with the validation error: with the limit \<^verbatim>\<open>None\<close> the comparison
  with the limit raises \<^verbatim>\<open>TypeError\<close>, and with the limit \<open>10\<^sup>3\<^sup>0\<^sup>9\<close> the product with
  \<^verbatim>\<open>0.1\<close> raises \<^verbatim>\<open>OverflowError\<close>.
\<close>

theorem chunk_text_validates_the_text_witness:
  "chunk_text module_start lib_without_nltk
     \<lparr>request_text = str ''  '', chunk_token_limit = Some 5, overlap_tokens = Some 1\<rparr>
     = Inl (ValueError ''Text content cannot be empty'') \<and>
   chunk_text ready lib_without_nltk
     \<lparr>request_text = str ''a'', chunk_token_limit = None, overlap_tokens = Some 50\<rparr>
     = Inl (TypeError ''unsupported operand type(s) for *: NoneType and float'') \<and>
   chunk_text ready lib_without_nltk
     \<lparr>request_text = str ''a'', chunk_token_limit = Some (10 ^ 309), overlap_tokens = Some 50\<rparr>
     = Inl (OverflowError ''int too large to convert to float'') \<and>
   chunk_text ready lib_without_nltk
     \<lparr>request_text = str ''a'', chunk_token_limit = Some (10 ^ 309), overlap_tokens = Some 50\<rparr>
     \<noteq> Inl (ValueError ''Text content cannot be empty'')"
proof -
  have blank: "strip (str ''  '') = []" and nonblank: "strip (str ''a'') \<noteq> []"
    and nonempty: "str ''a'' \<noteq> []"
    by (simp_all add: strip_def str_def isspace_def)
  have none: "chunk_text ready lib_without_nltk
     \<lparr>request_text = str ''a'', chunk_token_limit = None, overlap_tokens = Some 50\<rparr>
     = Inl (TypeError ''unsupported operand type(s) for *: NoneType and float'')"
    by (simp add: run_defs)
  have "(2::int) ^ 1024 \<le> \<bar>10 ^ 309\<bar>" by simp
  then have "int_tenth (10 ^ 309) = Inl (OverflowError ''int too large to convert to float'')"
    by (rule int_tenth_overflow)
  then have huge: "chunk_text ready lib_without_nltk
     \<lparr>request_text = str ''a'', chunk_token_limit = Some (10 ^ 309), overlap_tokens = Some 50\<rparr>
     = Inl (OverflowError ''int too large to convert to float'')"
    by (simp add: str_def strip_def isspace_def is_terminator_def printable_def
        simple_sentence_split_def sentences_of_def clean_text_advanced_def strip_tags_def
        get_data_def handle_data_def MLStripper_init_def num_tokens_def SmartChunker_init_def
        split_step_def SmartChunker_split_def chunk_text_def lib_without_nltk_def
        letter_tokens_def ready_def Let_def)
  show ?thesis
    using chunk_text_validates_the_text [of module_start lib_without_nltk
        "\<lparr>request_text = str ''  '', chunk_token_limit = Some 5, overlap_tokens = Some 1\<rparr>"]
      chunk_text_validates_the_text [of ready lib_without_nltk
        "\<lparr>request_text = str ''a'', chunk_token_limit = Some (10 ^ 309),
          overlap_tokens = Some 50\<rparr>"]
      blank nonblank nonempty none huge
    by simp
qed

text \<open>
  Claim C6 as it is stated fails: a request with the text \<^verbatim>\<open>"a"\<close> and the limit 0 is not
  rejected; it is answered with the one chunk \<^verbatim>\<open>"a"\<close>.
\<close>

theorem nonpositive_limit_is_accepted:
  "chunk_text ready lib_without_nltk
     \<lparr>request_text = str ''a'', chunk_token_limit = Some 0, overlap_tokens = Some 0\<rparr>
   = Inr \<lparr>status = str ''success'',
          message = str ''Text successfully chunked into 1 chunks'',
          response_chunks = [str ''a''], total_chunks = 1, total_tokens = 1\<rparr>"
  by (simp add: run_defs str_of_nat.simps)

section \<open>The token count of a chunk\<close>

lemma slice_from_last: "0 < ov \<Longrightarrow> slice_from (- ov) tokens = last_tokens (nat ov) tokens"
  by (simp add: slice_from_def last_tokens_def)

lemma chunk_ok_append:
  "i < length chunks \<Longrightarrow> chunk_ok S U g enc limit ov chunks i \<Longrightarrow>
     chunk_ok S U g enc limit ov (chunks @ [c]) i"
  by (simp add: chunk_ok_def nth_append)

lemma state_ok_append:
  assumes "state_ok S U g enc limit ov chunks cur"
    and "chunk_ok S U g enc limit ov (chunks @ [c]) (length chunks)"
  shows "state_ok S U g enc limit ov (chunks @ [c]) []"
proof -
  have "chunk_ok S U g enc limit ov (chunks @ [c]) i" if "i < length (chunks @ [c])" for i
  proof (cases "i < length chunks")
    case True
    then show ?thesis using assms(1) by (simp add: state_ok_def chunk_ok_append)
  next
    case False
    then have "i = length chunks" using that by simp
    then show ?thesis using assms(2) by simp
  qed
  then show ?thesis by (simp add: state_ok_def)
qed

lemma state_ok_flush:
  assumes "state_ok S U g enc limit ov chunks cur"
  shows "state_ok S U g enc limit ov (chunks @ [join cur]) []"
proof (rule state_ok_append [OF assms])
  consider "cur = []" | n where "num_tokens g (join cur) = Inr n" and "int n \<le> limit"
    | tokens u where "chunks \<noteq> []" and "encode enc (last chunks) = Some tokens" and "U u"
        and "cur = [strip (decode enc (last_tokens (nat ov) tokens)), u]"
    using assms by (auto simp: state_ok_def)
  then show "chunk_ok S U g enc limit ov (chunks @ [join cur]) (length chunks)"
  proof cases
    case 1
    then show ?thesis by (simp add: chunk_ok_def)
  next
    case 2
    then show ?thesis by (simp add: chunk_ok_def)
  next
    case 3
    have "(chunks @ [join cur]) ! (length chunks - 1) = last chunks"
      using 3(1) by (simp add: nth_append last_conv_nth)
    then show ?thesis using 3 unfolding chunk_ok_def by auto
  qed
qed

lemma state_ok_empty_buffer:
  "state_ok S U g enc limit ov chunks cur \<Longrightarrow> state_ok S U g enc limit ov chunks []"
  by (simp add: state_ok_def)

lemma add_to_chunks_ok:
  assumes "encoding g = Some enc" and "chunk_limit self = Some limit"
    and "overlap self = Some ov" and "0 < ov"
    and "state_ok S U g enc limit ov chunks cur" and "U u"
    and "add_to_chunks g self u chunks cur = Inr (chunks', cur')"
  shows "state_ok S U g enc limit ov chunks' cur'"
  using assms(7)
proof (cases rule: add_to_chunks_Inr)
  case (keep n limit')
  then show ?thesis using assms(2,5) by (auto simp: state_ok_def)
next
  case (flush n limit' enc' tokens ov')
  have same: "enc' = enc" "ov' = ov" using flush(4,6) assms(1,3) by simp_all
  have "state_ok S U g enc limit ov (chunks @ [join cur]) []"
    using assms(5) by (rule state_ok_flush)
  then show ?thesis
    unfolding flush(7,8) same using flush(5) assms(6) same
    by (auto simp: state_ok_def slice_from_last [OF assms(4)])
qed

lemma subchunk_loop_ok:
  assumes "encoding g = Some enc" and "chunk_limit self = Some limit"
    and "overlap self = Some ov" and "0 < ov"
  shows "state_ok S U g enc limit ov chunks cur \<Longrightarrow>
     list_all (\<lambda>sub. \<forall>n. strip sub \<noteq> [] \<and> num_tokens g sub = Inr n \<longrightarrow>
        (if int n \<le> limit then U (strip sub) else S (strip sub))) subs \<Longrightarrow>
     subchunk_loop g self subs (chunks, cur) = Inr (chunks', cur') \<Longrightarrow>
     state_ok S U g enc limit ov chunks' cur'"
proof (induction subs arbitrary: chunks cur)
  case Nil
  then show ?case by simp
next
  case (Cons sub subs)
  have rest: "list_all (\<lambda>sub. \<forall>n. strip sub \<noteq> [] \<and> num_tokens g sub = Inr n \<longrightarrow>
        (if int n \<le> limit then U (strip sub) else S (strip sub))) subs"
    and this_one: "\<forall>n. strip sub \<noteq> [] \<and> num_tokens g sub = Inr n \<longrightarrow>
        (if int n \<le> limit then U (strip sub) else S (strip sub))"
    using Cons.prems(2) by simp_all
  from Cons.prems(3) show ?case
  proof (cases rule: subchunk_loop_Cons)
    case blank
    then show ?thesis using Cons.IH [OF Cons.prems(1) rest] by simp
  next
    case (merge n limit' c1 k1)
    then have "U (strip sub)" using this_one assms(2) by auto
    then have "state_ok S U g enc limit ov c1 k1"
      using add_to_chunks_ok [OF assms Cons.prems(1) _ merge(5)] by simp
    then show ?thesis using Cons.IH [OF _ rest merge(6)] by simp
  next
    case (alone n limit')
    then have s: "S (strip sub)" using this_one assms(2) by auto
    let ?saved = "if cur \<noteq> [] then chunks @ [join cur] else chunks"
    have "state_ok S U g enc limit ov ?saved []"
      using Cons.prems(1) state_ok_flush [of S U g enc limit ov chunks cur]
        state_ok_empty_buffer [of S U g enc limit ov chunks cur] by simp
    moreover have "chunk_ok S U g enc limit ov (?saved @ [strip sub]) (length ?saved)"
      using s by (simp add: chunk_ok_def)
    ultimately have "state_ok S U g enc limit ov (?saved @ [strip sub]) []"
      by (rule state_ok_append)
    then show ?thesis using Cons.IH [OF _ rest alone(5)] by simp
  qed
qed

lemma split_step_ok:
  assumes "encoding g = Some enc" and "chunk_limit self = Some limit"
    and "overlap self = Some ov" and "0 < ov"
    and "state_ok S U g enc limit ov chunks cur"
    and "\<And>n tenth. strip s \<noteq> [] \<Longrightarrow> num_tokens g (strip s) = Inr n \<Longrightarrow>
       int_tenth limit = Inr tenth \<Longrightarrow> int n \<le> limit + tenth \<Longrightarrow> U (strip s)"
    and "\<And>subs sub n. takes_word_path g self s \<Longrightarrow>
       split_long_sentence g lib self (strip s) = Inr subs \<Longrightarrow> sub \<in> set subs \<Longrightarrow>
       strip sub \<noteq> [] \<Longrightarrow> num_tokens g sub = Inr n \<Longrightarrow>
       (if int n \<le> limit then U (strip sub) else S (strip sub))"
    and "split_step g lib self s (chunks, cur) = Inr (chunks', cur')"
  shows "state_ok S U g enc limit ov chunks' cur'"
  using assms(8)
proof (cases rule: split_step_Inr)
  case blank
  then show ?thesis using assms(5) by simp
next
  case (merge n limit' tenth)
  then have "U (strip s)" using assms(6) [of n tenth] assms(2) by simp
  then show ?thesis using add_to_chunks_ok [OF assms(1-5) _ merge(6)] by simp
next
  case (long n limit' tenth subs)
  then have path: "takes_word_path g self s" by (simp add: takes_word_path_def)
  have "list_all (\<lambda>sub. \<forall>n. strip sub \<noteq> [] \<and> num_tokens g sub = Inr n \<longrightarrow>
        (if int n \<le> limit then U (strip sub) else S (strip sub))) subs"
    unfolding list_all_iff using assms(7) [OF path long(6)] by blast
  then show ?thesis using subchunk_loop_ok [OF assms(1-5) _ long(7)] by blast
qed

lemma sentence_loop_ok:
  assumes "encoding g = Some enc" and "chunk_limit self = Some limit"
    and "overlap self = Some ov" and "0 < ov"
    and "\<And>s n tenth. s \<in> set ss \<Longrightarrow> strip s \<noteq> [] \<Longrightarrow> num_tokens g (strip s) = Inr n \<Longrightarrow>
       int_tenth limit = Inr tenth \<Longrightarrow> int n \<le> limit + tenth \<Longrightarrow> U (strip s)"
    and "\<And>s subs sub n. s \<in> set ss \<Longrightarrow> takes_word_path g self s \<Longrightarrow>
       split_long_sentence g lib self (strip s) = Inr subs \<Longrightarrow> sub \<in> set subs \<Longrightarrow>
       strip sub \<noteq> [] \<Longrightarrow> num_tokens g sub = Inr n \<Longrightarrow>
       (if int n \<le> limit then U (strip sub) else S (strip sub))"
  shows "set rest \<subseteq> set ss \<Longrightarrow> state_ok S U g enc limit ov chunks cur \<Longrightarrow>
     sentence_loop g lib self rest (chunks, cur) = Inr (chunks', cur') \<Longrightarrow>
     state_ok S U g enc limit ov chunks' cur'"
proof (induction rest arbitrary: chunks cur)
  case Nil
  then show ?case by simp
next
  case (Cons s rest)
  have s: "s \<in> set ss" using Cons.prems(1) by simp
  from Cons.prems(3) obtain st1 where st0: "split_step g lib self s (chunks, cur) = Inr st1"
    and l0: "sentence_loop g lib self rest st1 = Inr (chunks', cur')"
    by (rule sentence_loop_Cons)
  obtain c1 k1 where st1: "st1 = (c1, k1)" by (cases st1)
  note st = st0 [unfolded st1] and l = l0 [unfolded st1]
  have "state_ok S U g enc limit ov c1 k1"
  proof (rule split_step_ok [OF assms(1-4) Cons.prems(2) _ _ st])
    show "\<And>n tenth. strip s \<noteq> [] \<Longrightarrow> num_tokens g (strip s) = Inr n \<Longrightarrow>
       int_tenth limit = Inr tenth \<Longrightarrow> int n \<le> limit + tenth \<Longrightarrow> U (strip s)"
      using assms(5) [OF s] .
    show "\<And>subs sub n. takes_word_path g self s \<Longrightarrow>
       split_long_sentence g lib self (strip s) = Inr subs \<Longrightarrow> sub \<in> set subs \<Longrightarrow>
       strip sub \<noteq> [] \<Longrightarrow> num_tokens g sub = Inr n \<Longrightarrow>
       (if int n \<le> limit then U (strip sub) else S (strip sub))"
      using assms(6) [OF s] .
  qed
  then show ?case using Cons.IH [OF _ _ l] Cons.prems(1) by simp
qed

lemma fragments_ofI:
  "s \<in> set (sentences_of lib text) \<Longrightarrow> takes_word_path g self s \<Longrightarrow>
     split_long_sentence g lib self (strip s) = Inr subs \<Longrightarrow> sub \<in> set subs \<Longrightarrow>
     sub \<in> set (fragments_of g lib self text)"
  unfolding fragments_of_def by force

text \<open>
  Claim C1, as the program has it. Let a call of \<^verbatim>\<open>split\<close> return, with an integer limit and an overlap
  above 0. Every chunk is empty, or has at most \<open>limit\<close> tokens, or is one of two things.
  It is a fragment of long-sentence splitting, of a sentence that took the word-level
  path, that has more than \<open>limit\<close> tokens and is returned, trimmed, as a chunk of its own.
  Or it is made of the trimmed text of the last \<open>overlap\<close> tokens of the chunk just before
  it and of one unit after a blank, where the unit is a trimmed sentence of at most
  \<open>limit + int(limit * 0.1)\<close> tokens or a trimmed fragment of at most \<open>limit\<close> tokens. The
  buffer that is seeded again is not tested against the limit before it is saved.
\<close>

theorem chunk_token_bound:
  assumes "SmartChunker_split g lib self text = Inr chunks"
    and "encoding g = Some enc" and "chunk_limit self = Some limit"
    and "overlap self = Some ov" and "0 < ov"
    and "i < length chunks"
  shows "chunks ! i = [] \<or>
     (\<exists>n. num_tokens g (chunks ! i) = Inr n \<and> int n \<le> limit) \<or>
     (\<exists>sub n. sub \<in> set (fragments_of g lib self text) \<and>
        num_tokens g sub = Inr n \<and> limit < int n \<and> chunks ! i = strip sub) \<or>
     (0 < i \<and>
      (\<exists>tokens u. encode enc (chunks ! (i - 1)) = Some tokens \<and>
         ((\<exists>s n tenth. s \<in> set (sentences_of lib text) \<and> u = strip s \<and>
             num_tokens g u = Inr n \<and> int_tenth limit = Inr tenth \<and> int n \<le> limit + tenth) \<or>
          (\<exists>sub n. sub \<in> set (fragments_of g lib self text) \<and> u = strip sub \<and>
             num_tokens g sub = Inr n \<and> int n \<le> limit)) \<and>
         chunks ! i = join [strip (decode enc (last_tokens (nat ov) tokens)), u]))"
proof -
  let ?S = "\<lambda>c. \<exists>sub n. sub \<in> set (fragments_of g lib self text) \<and>
        num_tokens g sub = Inr n \<and> limit < int n \<and> c = strip sub"
  let ?U = "\<lambda>u. (\<exists>s n tenth. s \<in> set (sentences_of lib text) \<and> u = strip s \<and>
             num_tokens g u = Inr n \<and> int_tenth limit = Inr tenth \<and> int n \<le> limit + tenth) \<or>
          (\<exists>sub n. sub \<in> set (fragments_of g lib self text) \<and> u = strip sub \<and>
             num_tokens g sub = Inr n \<and> int n \<le> limit)"
  obtain c k where l: "sentence_loop g lib self (sentences_of lib text) ([], []) = Inr (c, k)"
    using assms(1)
    by (cases "sentence_loop g lib self (sentences_of lib text) ([], [])")
      (auto simp: SmartChunker_split_def)
  have start: "state_ok ?S ?U g enc limit ov [] []"
    by (simp add: state_ok_def)
  have loop: "state_ok ?S ?U g enc limit ov c k"
  proof (rule sentence_loop_ok [OF assms(2-5) _ _ _ start l, where ss = "sentences_of lib text"])
    show "set (sentences_of lib text) \<subseteq> set (sentences_of lib text)" by simp
  next
    fix s n tenth
    assume "s \<in> set (sentences_of lib text)" and "num_tokens g (strip s) = Inr n"
      and "int_tenth limit = Inr tenth" and "int n \<le> limit + tenth"
    then show "?U (strip s)" by blast
  next
    fix s subs sub n
    assume f: "s \<in> set (sentences_of lib text)" "takes_word_path g self s"
      "split_long_sentence g lib self (strip s) = Inr subs" "sub \<in> set subs"
      and n: "num_tokens g sub = Inr n"
    have "sub \<in> set (fragments_of g lib self text)" using f by (rule fragments_ofI)
    then show "if int n \<le> limit then ?U (strip sub) else ?S (strip sub)"
      using n by (cases "int n \<le> limit") auto
  qed
  have res: "chunks = (if k \<noteq> [] then c @ [join k] else c)"
    using l assms(1) by (simp add: SmartChunker_split_def)
  have "state_ok ?S ?U g enc limit ov chunks []"
    unfolding res using loop state_ok_flush [OF loop] state_ok_empty_buffer [OF loop] by simp
  then have "chunk_ok ?S ?U g enc limit ov chunks i"
    using assms(6) by (simp add: state_ok_def)
  then show ?thesis unfolding chunk_ok_def .
qed

text \<open>
  The text \<^verbatim>\<open>"a b c! d e f"\<close> with the limit 3 and the overlap 1: the second chunk is the
  text \<^verbatim>\<open>"c"\<close> of the last token of the first chunk, and the second sentence.
\<close>

theorem chunk_token_bound_witness:
  "SmartChunker_split ready lib_without_nltk \<lparr>chunk_limit = Some 3, overlap = Some 1\<rparr>
       (str ''a b c! d e f'') = Inr [str ''a b c'', str ''c d e f''] \<and>
   encode letter_tokens (str ''a b c'') = Some [97, 2000098, 2000099] \<and>
   str ''c d e f''
     = join [strip (decode letter_tokens (last_tokens 1 [97, 2000098, 2000099])), str ''d e f''] \<and>
   (let chunks = [str ''a b c'', str ''c d e f'']; i = 1; limit = 3; ov = 1;
        self = \<lparr>chunk_limit = Some 3, overlap = Some 1\<rparr>; g = ready; enc = letter_tokens;
        lib = lib_without_nltk; text = str ''a b c! d e f''
    in chunks ! i = [] \<or>
     (\<exists>n. num_tokens g (chunks ! i) = Inr n \<and> int n \<le> limit) \<or>
     (\<exists>sub n. sub \<in> set (fragments_of g lib self text) \<and>
        num_tokens g sub = Inr n \<and> limit < int n \<and> chunks ! i = strip sub) \<or>
     (0 < i \<and>
      (\<exists>tokens u. encode enc (chunks ! (i - 1)) = Some tokens \<and>
         ((\<exists>s n tenth. s \<in> set (sentences_of lib text) \<and> u = strip s \<and>
             num_tokens g u = Inr n \<and> int_tenth limit = Inr tenth \<and> int n \<le> limit + tenth) \<or>
          (\<exists>sub n. sub \<in> set (fragments_of g lib self text) \<and> u = strip sub \<and>
             num_tokens g sub = Inr n \<and> int n \<le> limit)) \<and>
         chunks ! i = join [strip (decode enc (last_tokens (nat ov) tokens)), u])))"
proof -
  let ?self = "\<lparr>chunk_limit = Some 3, overlap = Some 1\<rparr>"
  have run: "SmartChunker_split ready lib_without_nltk ?self (str ''a b c! d e f'')
      = Inr [str ''a b c'', str ''c d e f'']"
    by (simp add: run_defs)
  have enc: "encoding ready = Some letter_tokens" by (simp add: ready_def)
  have toks: "encode letter_tokens (str ''a b c'') = Some [97, 2000098, 2000099]"
    by (simp add: letter_tokens_def str_def)
  have seed: "str ''c d e f''
      = join [strip (decode letter_tokens (last_tokens 1 [97, 2000098, 2000099])), str ''d e f'']"
    by (simp add: last_tokens_def run_defs)
  have lim: "chunk_limit ?self = Some 3" and ov: "overlap ?self = Some 1" by simp_all
  have pos: "(0::int) < 1" by simp
  have i: "1 < length [str ''a b c'', str ''c d e f'']" by simp
  show ?thesis
    unfolding Let_def
    using run toks seed chunk_token_bound [OF run enc lim ov pos i]
    by (intro conjI) assumption+
qed

text \<open>
  Claim C1 as it is stated fails. With the limit 3 and the overlap 1, the text
  \<^verbatim>\<open>"a b c! d e f"\<close> has the two sentences \<^verbatim>\<open>"a b c"\<close> and \<^verbatim>\<open>"d e f"\<close> of three tokens each, so
  nothing is oversized; the second chunk is the overlap \<^verbatim>\<open>"c"\<close> and the second sentence,
  and has four tokens.
\<close>

theorem reseeded_chunk_exceeds_the_limit:
  "sentences_of lib_without_nltk (str ''a b c! d e f'') = [str ''a b c'', str ''d e f''] \<and>
   num_tokens ready (str ''a b c'') = Inr 3 \<and> num_tokens ready (str ''d e f'') = Inr 3 \<and>
   SmartChunker_split ready lib_without_nltk \<lparr>chunk_limit = Some 3, overlap = Some 1\<rparr>
       (str ''a b c! d e f'')
     = Inr [str ''a b c'', str ''c d e f''] \<and>
   num_tokens ready (str ''c d e f'') = Inr 4"
  by (simp add: run_defs)

end
